theory Spec2Isabelle
  imports Complex_Main "HOL-Library.Monad_Syntax"
begin

section \<open>JavaScript strings\<close>

text \<open>
  A JavaScript string is a sequence of UTF-16 code units; it is modelled as a \<open>string\<close>, one
  \<open>char\<close> per code unit. Every pattern of the source mentions ASCII characters only, and a
  code unit outside ASCII is matched by none of them except the negated classes, so the
  characters \<open>0x80\<close> to \<open>0xFF\<close> stand for all non-ASCII code units.
\<close>

definition dq :: char where
  "dq = CHR 0x22"

text \<open>\<^verbatim>\<open>s.indexOf(t)\<close>: the least index at which \<open>t\<close> occurs in \<open>s\<close>, or \<open>-1\<close>.\<close>

fun indexOfFrom :: "string \<Rightarrow> string \<Rightarrow> nat \<Rightarrow> int" where
  "indexOfFrom t [] k = (if t = [] then int k else - 1)"
| "indexOfFrom t (c # s) k =
     (if take (length t) (c # s) = t then int k else indexOfFrom t s (Suc k))"

definition indexOf :: "string \<Rightarrow> string \<Rightarrow> int" where
  "indexOf s t = indexOfFrom t s 0"

definition includesStr :: "string \<Rightarrow> string \<Rightarrow> bool" where
  "includesStr s t \<longleftrightarrow> indexOf s t \<noteq> - 1"

text \<open>
  \<^verbatim>\<open>s.substring(a, b)\<close>: both arguments are clamped to \<open>[0, s.length]\<close> and swapped when
  \<open>a > b\<close>.
\<close>

definition substring :: "string \<Rightarrow> int \<Rightarrow> int \<Rightarrow> string" where
  "substring s a b =
     (let len = int (length s);
          a' = min (max a 0) len;
          b' = min (max b 0) len;
          lo = min a' b';
          hi = max a' b'
      in take (nat hi - nat lo) (drop (nat lo) s))"

text \<open>\<^verbatim>\<open>slug.replace(/-/g, ' ')\<close>: every hyphen becomes a space.\<close>

definition dashesToSpaces :: "string \<Rightarrow> string" where
  "dashesToSpaces s = map (\<lambda>c. if c = CHR ''-'' then CHR '' '' else c) s"

section \<open>Regular expressions\<close>

text \<open>
  The fragment of the regular-expression syntax that the source uses: literal text, a negated
  character class, \<^verbatim>\<open>\d\<close>, concatenation, alternation and the greedy star. \<^verbatim>\<open>r+\<close> is
  \<open>r r*\<close> and \<^verbatim>\<open>r{n}\<close> is \<open>n\<close> copies of \<open>r\<close>.
\<close>

datatype rx = Lit string | NotIn string | Digit | Seq rx rx | Alt rx rx | Star rx

definition Plus :: "rx \<Rightarrow> rx" where
  "Plus a = Seq a (Star a)"

fun Times :: "nat \<Rightarrow> rx \<Rightarrow> rx" where
  "Times 0 a = Lit []"
| "Times (Suc 0) a = a"
| "Times (Suc (Suc n)) a = Seq a (Times (Suc n) a)"

text \<open>
  The \<^verbatim>\<open>i\<close> flag compares canonicalised characters. Without the \<^verbatim>\<open>u\<close> flag a character
  is canonicalised by upper-casing, and a non-ASCII character is never mapped to an ASCII
  one, so on the ASCII patterns of the source only the letters \<open>a\<close> to \<open>z\<close> matter.
\<close>

definition canon :: "bool \<Rightarrow> char \<Rightarrow> char" where
  "canon ic c =
     (if ic then
        (case map_of (zip ''abcdefghijklmnopqrstuvwxyz'' ''ABCDEFGHIJKLMNOPQRSTUVWXYZ'') c of
           Some u \<Rightarrow> u
         | None \<Rightarrow> c)
      else c)"

definition isDigit :: "char \<Rightarrow> bool" where
  "isDigit c \<longleftrightarrow> c \<in> set ''0123456789''"

text \<open>
  The backtracking matcher: \<open>rxMatch ic r s\<close> lists, in the order in which backtracking tries
  them, the remainders of \<open>s\<close> after each way of matching \<open>r\<close> at the start of \<open>s\<close>. The star is
  greedy, and an iteration that consumes nothing is rejected, as in ECMAScript.
\<close>

fun rxMatch :: "bool \<Rightarrow> rx \<Rightarrow> string \<Rightarrow> string list" where
  "rxMatch ic (Lit l) s =
     (if map (canon ic) (take (length l) s) = map (canon ic) l then [drop (length l) s] else [])"
| "rxMatch ic (NotIn cs) s =
     (case s of [] \<Rightarrow> [] | c # t \<Rightarrow> if canon ic c \<in> canon ic ` set cs then [] else [t])"
| "rxMatch ic Digit s = (case s of [] \<Rightarrow> [] | c # t \<Rightarrow> if isDigit c then [t] else [])"
| "rxMatch ic (Seq a b) s = concat (map (rxMatch ic b) (rxMatch ic a s))"
| "rxMatch ic (Alt a b) s = rxMatch ic a s @ rxMatch ic b s"
| "rxMatch ic (Star a) s =
     concat (map (\<lambda>t. if length t < length s then rxMatch ic (Star a) t else [])
       (rxMatch ic a s)) @ [s]"

lemmas rxMatch_Star = rxMatch.simps(6)

declare rxMatch.simps(6) [simp del]

text \<open>
  Every pattern of the source whose capture is read has the shape \<open>before (group) after\<close>, the
  group at the top level, so group 1 takes part in every match. A pattern without a group has
  an empty \<open>group1\<close> and \<open>after\<close>.
\<close>

record pattern =
  before :: rx
  group1 :: rx
  after :: rx

definition nogroup :: "rx \<Rightarrow> pattern" where
  "nogroup r = \<lparr>before = r, group1 = Lit [], after = Lit []\<rparr>"

text \<open>All matches of a pattern at the start of \<open>s\<close>: the text of group 1 and the remainder.\<close>

definition patMatch :: "bool \<Rightarrow> pattern \<Rightarrow> string \<Rightarrow> (string \<times> string) list" where
  "patMatch ic p s =
     concat (map (\<lambda>s1.
       concat (map (\<lambda>s2.
         map (\<lambda>s3. (take (length s1 - length s2) s1, s3)) (rxMatch ic (after p) s2))
         (rxMatch ic (group1 p) s1)))
       (rxMatch ic (before p) s))"

record jsmatch =
  m_index :: nat
  m_text :: string
  m_group :: string
  m_end :: nat

text \<open>
  The leftmost match: \<open>search ic p s k\<close> tries each start position of \<open>s\<close> in turn, the end of
  the string included; \<open>k\<close> is the index of the start of \<open>s\<close> in the whole subject.
\<close>

fun search :: "bool \<Rightarrow> pattern \<Rightarrow> string \<Rightarrow> nat \<Rightarrow> jsmatch option" where
  "search ic p [] k =
     (case patMatch ic p [] of
        [] \<Rightarrow> None
      | (g, r) # _ \<Rightarrow> Some \<lparr>m_index = k, m_text = [], m_group = g, m_end = k\<rparr>)"
| "search ic p (c # s) k =
     (case patMatch ic p (c # s) of
        [] \<Rightarrow> search ic p s (Suc k)
      | (g, r) # _ \<Rightarrow>
          Some \<lparr>m_index = k, m_text = take (length (c # s) - length r) (c # s), m_group = g,
                m_end = k + (length (c # s) - length r)\<rparr>)"

text \<open>\<^verbatim>\<open>re.exec(s)\<close> on a global expression whose \<^verbatim>\<open>lastIndex\<close> is given.\<close>

definition exec :: "bool \<Rightarrow> pattern \<Rightarrow> string \<Rightarrow> nat \<Rightarrow> jsmatch option" where
  "exec ic p s lastIndex =
     (if lastIndex > length s then None else search ic p (drop lastIndex s) lastIndex)"

text \<open>\<^verbatim>\<open>s.match(re)\<close> on an expression without the \<^verbatim>\<open>g\<close> flag.\<close>

definition strMatch :: "bool \<Rightarrow> pattern \<Rightarrow> string \<Rightarrow> jsmatch option" where
  "strMatch ic p s = search ic p s 0"

text \<open>
  \<^verbatim>\<open>s.replace(re, rep)\<close> without the \<^verbatim>\<open>g\<close> flag replaces the leftmost match only; no
  replacement text of the source contains a \<^verbatim>\<open>$\<close>.
\<close>

definition replaceFirst :: "rx \<Rightarrow> string \<Rightarrow> string \<Rightarrow> string" where
  "replaceFirst r rep s =
     (case strMatch False (nogroup r) s of
        None \<Rightarrow> s
      | Some mt \<Rightarrow> take (m_index mt) s @ rep @ drop (m_end mt) s)"

section \<open>The patterns of the source\<close>

definition notQuote :: rx where
  "notQuote = NotIn [dq]"

text \<open>\<^verbatim>\<open>/data-film-slug="([^"]+)"/g\<close>\<close>

definition slugPattern1 :: pattern where
  "slugPattern1 =
     \<lparr>before = Lit (''data-film-slug='' @ [dq]), group1 = Plus notQuote, after = Lit [dq]\<rparr>"

text \<open>\<^verbatim>\<open>/data-item-slug="([^"]+)"/g\<close>\<close>

definition slugPattern2 :: pattern where
  "slugPattern2 =
     \<lparr>before = Lit (''data-item-slug='' @ [dq]), group1 = Plus notQuote, after = Lit [dq]\<rparr>"

text \<open>\<^verbatim>\<open>/href="\/film\/([^/"]+)\/"/g\<close>\<close>

definition slugPattern3 :: pattern where
  "slugPattern3 =
     \<lparr>before = Lit (''href='' @ [dq] @ ''/film/''), group1 = Plus (NotIn [CHR ''/'', dq]),
      after = Lit (''/'' @ [dq])\<rparr>"

text \<open>\<^verbatim>\<open>/data-(?:film|item)-slug="([^"]+)"/g\<close> (src/api/watchlist.js)\<close>

definition slugPattern :: pattern where
  "slugPattern =
     \<lparr>before = Seq (Lit ''data-'') (Seq (Alt (Lit ''film'') (Lit ''item''))
        (Lit (''-slug='' @ [dq]))),
      group1 = Plus notQuote, after = Lit [dq]\<rparr>"

text \<open>\<^verbatim>\<open>/data-(?:film|item)-name="([^"]+)"/\<close>\<close>

definition namePattern :: pattern where
  "namePattern =
     \<lparr>before = Seq (Lit ''data-'') (Seq (Alt (Lit ''film'') (Lit ''item''))
        (Lit (''-name='' @ [dq]))),
      group1 = Plus notQuote, after = Lit [dq]\<rparr>"

text \<open>\<^verbatim>\<open>/alt="([^"]+)"/\<close>\<close>

definition altPattern :: pattern where
  "altPattern = \<lparr>before = Lit (''alt='' @ [dq]), group1 = Plus notQuote, after = Lit [dq]\<rparr>"

text \<open>
  \<^verbatim>\<open>/src="(https:\/\/[^"]*ltrbxd[^"]*\.(jpg|webp)[^"]*)"/i\<close>; the inner group is never
  read and is modelled as a plain alternation.
\<close>

definition imgPattern :: pattern where
  "imgPattern =
     \<lparr>before = Lit (''src='' @ [dq]),
      group1 = Seq (Lit ''https://'') (Seq (Star notQuote) (Seq (Lit ''ltrbxd'')
        (Seq (Star notQuote) (Seq (Lit ''.'') (Seq (Alt (Lit ''jpg'') (Lit ''webp''))
          (Star notQuote)))))),
      after = Lit [dq]\<rparr>"

text \<open>\<^verbatim>\<open>/src="(https:\/\/[^"]*ltrbxd[^"]*\.jpg[^"]*)"/\<close> (src/api/watchlist.js)\<close>

definition imgPattern_api :: pattern where
  "imgPattern_api =
     \<lparr>before = Lit (''src='' @ [dq]),
      group1 = Seq (Lit ''https://'') (Seq (Star notQuote) (Seq (Lit ''ltrbxd'')
        (Seq (Star notQuote) (Seq (Lit ''.jpg'') (Star notQuote))))),
      after = Lit [dq]\<rparr>"

text \<open>\<^verbatim>\<open>/\((\d{4})\)/\<close>\<close>

definition yearPattern :: pattern where
  "yearPattern = \<lparr>before = Lit ''('', group1 = Times 4 Digit, after = Lit '')''\<rparr>"

text \<open>\<^verbatim>\<open>/-0-\d+-0-\d+-crop/\<close>, \<^verbatim>\<open>/-0-150-0-225-/\<close> and \<^verbatim>\<open>/-0-125-0-187-/\<close>\<close>

definition cropToken :: rx where
  "cropToken =
     Seq (Lit ''-0-'') (Seq (Plus Digit) (Seq (Lit ''-0-'') (Seq (Plus Digit) (Lit ''-crop''))))"

definition token150 :: rx where
  "token150 = Lit ''-0-150-0-225-''"

definition token125 :: rx where
  "token125 = Lit ''-0-125-0-187-''"

section \<open>The movie extractor\<close>

text \<open>
  A movie record. The records of src/api/watchlist.js have no \<^verbatim>\<open>year\<close> key, which is
  \<open>year = None\<close>. The fields keep the names of the source, so a variable that the source
  calls \<^verbatim>\<open>slug\<close> is \<open>sl\<close> below, and the \<^verbatim>\<open>poster\<close> that is rewritten is \<open>url\<close>.
\<close>

record movie =
  slug :: string
  title :: string
  year :: "string option"
  poster :: string
  link :: string

text \<open>\<^verbatim>\<open>if (!seen.has(x)) seen.add(x)\<close>; a JavaScript \<^verbatim>\<open>Set\<close> iterates in insertion order.\<close>

definition addSlug :: "string list \<Rightarrow> string \<Rightarrow> string list" where
  "addSlug seen x = (if x \<in> set seen then seen else seen @ [x])"

text \<open>
  \<^verbatim>\<open>while ((match = re.exec(html)) !== null) { ... seen.add(match[1]) }\<close>. The loop returns
  only when \<^verbatim>\<open>exec\<close> answers \<^verbatim>\<open>null\<close>; not returning is the value \<open>None\<close>. The loop of
  src/api/watchlist.js calls \<^verbatim>\<open>slugs.add(match[1])\<close> with no test, which adds nothing when the
  slug is in the set.
\<close>

partial_function (option) collect ::
  "pattern \<Rightarrow> string \<Rightarrow> nat \<Rightarrow> string list \<Rightarrow> string list option" where
  "collect p html lastIndex seen =
     (case exec False p html lastIndex of
        None \<Rightarrow> Some seen
      | Some mt \<Rightarrow> collect p html (m_end mt) (addSlug seen (m_group mt)))"

declare collect.simps [code]

definition collectSlugs :: "string \<Rightarrow> string list option" where
  "collectSlugs html =
     do {
       s1 \<leftarrow> collect slugPattern1 html 0 [];
       s2 \<leftarrow> collect slugPattern2 html 0 s1;
       collect slugPattern3 html 0 s2
     }"

text \<open>The three replacements of the poster URL, in the order of the source.\<close>

definition rewritePoster :: "string \<Rightarrow> string" where
  "rewritePoster url =
     (let poster1 = replaceFirst cropToken ''-0-460-0-690-crop'' url;
          poster2 = replaceFirst token150 ''-0-230-0-345-'' poster1
      in replaceFirst token125 ''-0-230-0-345-'' poster2)"

definition sectionOf :: "string \<Rightarrow> int \<Rightarrow> string" where
  "sectionOf html slugIndex =
     (let start = max 0 (slugIndex - 1000);
          end = min (int (length html)) (slugIndex + 1000)
      in substring html start end)"

definition nameOf :: "string \<Rightarrow> string \<Rightarrow> string" where
  "nameOf sl section =
     (case strMatch False namePattern section of
        Some nameMatch \<Rightarrow> m_group nameMatch
      | None \<Rightarrow>
          (case strMatch False altPattern section of
             Some altMatch \<Rightarrow>
               if length (m_group altMatch) > 1 then m_group altMatch else dashesToSpaces sl
           | None \<Rightarrow> dashesToSpaces sl))"

definition posterOf :: "string \<Rightarrow> string" where
  "posterOf section =
     (case strMatch True imgPattern section of
        Some imgMatch \<Rightarrow> rewritePoster (m_group imgMatch)
      | None \<Rightarrow> [])"

definition yearOf :: "string \<Rightarrow> string" where
  "yearOf name =
     (case strMatch False yearPattern name of
        Some yearMatch \<Rightarrow> m_group yearMatch
      | None \<Rightarrow> [])"

definition movieFrom :: "string \<Rightarrow> string \<Rightarrow> movie" where
  "movieFrom sl section =
     (let name = nameOf sl section
      in \<lparr>slug = sl, title = name, year = Some (yearOf name), poster = posterOf section,
          link = ''https://letterboxd.com/film/'' @ sl @ ''/''\<rparr>)"

text \<open>The body of \<^verbatim>\<open>for (const slug of seen)\<close>; \<open>None\<close> is \<^verbatim>\<open>continue\<close>.\<close>

definition movieOf :: "string \<Rightarrow> string \<Rightarrow> movie option" where
  "movieOf html sl =
     (let slugIndex = indexOf html sl
      in if slugIndex = - 1 then None else Some (movieFrom sl (sectionOf html slugIndex)))"

text \<open>\<^verbatim>\<open>parseMovies\<close> of the two Workers (src/unnamed/part_000, both copies).\<close>

definition parseMovies :: "string \<Rightarrow> movie list option" where
  "parseMovies html =
     do {
       seen \<leftarrow> collectSlugs html;
       Some (List.map_filter (movieOf html) seen)
     }"

subsection \<open>The extractor of src/api/watchlist.js\<close>

definition filmSection :: "string \<Rightarrow> string \<Rightarrow> string" where
  "filmSection html sl =
     substring html (max 0 (indexOf html sl - 500))
       (min (int (length html)) (indexOf html sl + 500))"

definition nameOf_api :: "string \<Rightarrow> string \<Rightarrow> string" where
  "nameOf_api sl section =
     (case strMatch False namePattern section of
        Some nameMatch \<Rightarrow> m_group nameMatch
      | None \<Rightarrow>
          (case strMatch False altPattern section of
             Some altMatch \<Rightarrow> m_text altMatch
           | None \<Rightarrow> dashesToSpaces sl))"

text \<open>\<^verbatim>\<open>if (poster) { poster = poster.replace(...) }\<close>: the one replacement of this file.\<close>

definition rewritePoster_api :: "string \<Rightarrow> string" where
  "rewritePoster_api url =
     (if url \<noteq> [] then replaceFirst cropToken ''-0-460-0-690-crop'' url else url)"

definition posterOf_api :: "string \<Rightarrow> string" where
  "posterOf_api section =
     (let poster = (case strMatch False imgPattern_api section of
                      Some imgMatch \<Rightarrow> m_group imgMatch
                    | None \<Rightarrow> [])
      in rewritePoster_api poster)"

definition movieFrom_api :: "string \<Rightarrow> string \<Rightarrow> movie" where
  "movieFrom_api sl section =
     \<lparr>slug = sl, title = nameOf_api sl section, year = None, poster = posterOf_api section,
      link = ''https://letterboxd.com/film/'' @ sl @ ''/''\<rparr>"

definition parseMovies_api :: "string \<Rightarrow> movie list option" where
  "parseMovies_api html =
     do {
       slugs \<leftarrow> collect slugPattern html 0 [];
       Some (map (\<lambda>sl. movieFrom_api sl (filmSection html sl)) slugs)
     }"

section \<open>The request handlers\<close>

record request =
  req_method :: string
  q_username :: "string option"
  q_user :: "string option"
  q_random :: "string option"

text \<open>
  The JSON bodies that the handlers send: no body, \<^verbatim>\<open>{error}\<close>,
  \<^verbatim>\<open>{error, cloudflare: true}\<close>, \<^verbatim>\<open>{movies, total}\<close> and \<^verbatim>\<open>{movie, total}\<close>. A \<^verbatim>\<open>movie\<close>
  that is \<^verbatim>\<open>undefined\<close> is \<open>None\<close>. The CORS headers, the same on every response, are left out.
\<close>

datatype body =
  NoBody
| ErrorBody string
| BlockedBody string
| MoviesBody "movie list" nat
| MovieBody "movie option" nat

record response =
  status :: nat
  body :: body

text \<open>
  What fetching one page gives: the promise is rejected with a message, or a response
  arrives with its \<^verbatim>\<open>ok\<close> flag and its text. The fetcher is a parameter of the handlers, a
  function of the user name and the page number.
\<close>

datatype fetch_result = Rejected string | Responded bool string

record loop_state =
  page :: nat
  hasMore :: bool
  allMovies :: "movie list"

definition initialState :: loop_state where
  "initialState = \<lparr>page = 1, hasMore = True, allMovies = []\<rparr>"

definition isChallenge :: "string \<Rightarrow> bool" where
  "isChallenge html \<longleftrightarrow>
     includesStr html ''challenge-platform'' \<or> includesStr html ''Just a moment''"

definition notFound :: response where
  "notFound = \<lparr>status = 404, body = ErrorBody ''User not found or watchlist is private''\<rparr>"

definition blocked :: response where
  "blocked =
     \<lparr>status = 503, body = BlockedBody ''Letterboxd is blocking requests. Try again later.''\<rparr>"

definition emptyList :: response where
  "emptyList = \<lparr>status = 404, body = ErrorBody ''Watchlist is empty or not accessible''\<rparr>"

text \<open>
  \<^verbatim>\<open>allMovies.push(...movies)\<close> passes every record of the page as an argument of one call.
  An engine takes only so many arguments: above its limit the call throws a
  \<^verbatim>\<open>RangeError\<close> and \<^verbatim>\<open>allMovies\<close> stays as it was. The limit is the engine's and is not in the
  source, so the engine is a parameter of the handlers: given the lengths of \<^verbatim>\<open>allMovies\<close>
  and of \<^verbatim>\<open>movies\<close> it answers \<open>None\<close> when the call returns and the message of the error
  when it throws.
\<close>

type_synonym engine = "nat \<Rightarrow> nat \<Rightarrow> string option"

text \<open>An engine that throws, with the message \<open>msg\<close>, when the spread has \<open>limit\<close> arguments or more.\<close>

definition argumentLimit :: "int \<Rightarrow> string \<Rightarrow> engine" where
  "argumentLimit limit msg = (\<lambda>len n. if limit \<le> int n then Some msg else None)"

text \<open>An engine that takes up to 129999 arguments, for the examples.\<close>

definition sampleEngine :: engine where
  "sampleEngine = argumentLimit 130000 ''Maximum call stack size exceeded''"

text \<open>
  One iteration of the loop of the Workers (\<^verbatim>\<open>handleWatchlistAPI\<close> and \<^verbatim>\<open>fallbackScrape\<close> of
  src/unnamed/part_000 have the same body): \<open>Inl\<close> is a \<^verbatim>\<open>return\<close> out of the loop, \<open>Inr\<close>
  the state at the end of the iteration. A rejected fetch and a throwing \<^verbatim>\<open>push\<close> are caught
  by the enclosing \<^verbatim>\<open>try\<close>, which answers 500 with the message of the error.
\<close>

definition scrapeStep ::
  "engine \<Rightarrow> (nat \<Rightarrow> fetch_result) \<Rightarrow> loop_state \<Rightarrow> (response + loop_state) option" where
  "scrapeStep engine fetch st =
     (case fetch (page st) of
        Rejected msg \<Rightarrow> Some (Inl \<lparr>status = 500, body = ErrorBody msg\<rparr>)
      | Responded ok html \<Rightarrow>
          if \<not> ok then
            (if page st = 1 then Some (Inl notFound) else Some (Inr (st\<lparr>hasMore := False\<rparr>)))
          else if isChallenge html then
            (if page st = 1 then Some (Inl blocked) else Some (Inr (st\<lparr>hasMore := False\<rparr>)))
          else
            (case parseMovies html of
               None \<Rightarrow> None
             | Some movies \<Rightarrow>
                 if length movies = 0 then Some (Inr (st\<lparr>hasMore := False\<rparr>))
                 else
                   (case engine (length (allMovies st)) (length movies) of
                      Some msg \<Rightarrow> Some (Inl \<lparr>status = 500, body = ErrorBody msg\<rparr>)
                    | None \<Rightarrow>
                        Some (Inr (st\<lparr>allMovies := allMovies st @ movies,
                          page := page st + 1\<rparr>)))))"


text \<open>
  One iteration of the loop of src/api/watchlist.js. \<^verbatim>\<open>fetchUrl\<close> rejects on a transport
  error and on every final status other than 200, and the \<^verbatim>\<open>catch\<close> inside the loop treats
  both alike; the same \<^verbatim>\<open>catch\<close> takes the error of a throwing \<^verbatim>\<open>push\<close>.
\<close>

definition apiStep ::
  "engine \<Rightarrow> (nat \<Rightarrow> fetch_result) \<Rightarrow> loop_state \<Rightarrow> (response + loop_state) option" where
  "apiStep engine fetch st =
     (case fetch (page st) of
        Responded True html \<Rightarrow>
          if isChallenge html then
            (if page st = 1 then Some (Inl blocked) else Some (Inr (st\<lparr>hasMore := False\<rparr>)))
          else
            (case parseMovies_api html of
               None \<Rightarrow> None
             | Some movies \<Rightarrow>
                 if length movies = 0 then Some (Inr (st\<lparr>hasMore := False\<rparr>))
                 else
                   (case engine (length (allMovies st)) (length movies) of
                      Some msg \<Rightarrow>
                        if page st = 1 then Some (Inl notFound)
                        else Some (Inr (st\<lparr>hasMore := False\<rparr>))
                    | None \<Rightarrow>
                        Some (Inr (st\<lparr>allMovies := allMovies st @ movies,
                          page := page st + 1\<rparr>))))
      | _ \<Rightarrow>
          if page st = 1 then Some (Inl notFound) else Some (Inr (st\<lparr>hasMore := False\<rparr>)))"

text \<open>
  \<^verbatim>\<open>while (hasMore && page <= cap) { ... }\<close>. The last argument counts the iterations begun;
  it is returned with the result and read by nothing else.
\<close>

partial_function (option) pageLoop ::
  "nat \<Rightarrow> (loop_state \<Rightarrow> (response + loop_state) option) \<Rightarrow> loop_state \<Rightarrow> nat \<Rightarrow>
     ((response + loop_state) \<times> nat) option" where
  "pageLoop cap step st n =
     (if hasMore st \<and> page st \<le> cap then
        (case step st of
           None \<Rightarrow> None
         | Some (Inl r) \<Rightarrow> Some (Inl r, Suc n)
         | Some (Inr st') \<Rightarrow> pageLoop cap step st' (Suc n))
      else Some (Inr st, n))"

declare pageLoop.simps [code]

text \<open>\<^verbatim>\<open>a || b\<close> on two query parameters, then \<^verbatim>\<open>!username\<close>: \<open>None\<close> when the result is falsy.\<close>

definition usernameOf :: "request \<Rightarrow> string option" where
  "usernameOf req =
     (let username = (case q_username req of
                        Some u \<Rightarrow> if u \<noteq> [] then Some u else q_user req
                      | None \<Rightarrow> q_user req)
      in case username of Some u \<Rightarrow> if u \<noteq> [] then Some u else None | None \<Rightarrow> None)"

text \<open>
  \<^verbatim>\<open>allMovies[Math.floor(Math.random() * allMovies.length)]\<close>; \<open>rnd\<close> is the value of
  \<^verbatim>\<open>Math.random()\<close>, which lies in \<open>[0, 1)\<close>. The product is taken in the reals; an index
  outside the array reads \<^verbatim>\<open>undefined\<close>.
\<close>

definition randomPick :: "real \<Rightarrow> movie list \<Rightarrow> movie option" where
  "randomPick rnd movies =
     (let randomIndex = \<lfloor>rnd * real (length movies)\<rfloor>
      in if 0 \<le> randomIndex \<and> randomIndex < int (length movies)
         then Some (movies ! nat randomIndex) else None)"

definition respondMovies :: "request \<Rightarrow> real \<Rightarrow> movie list \<Rightarrow> response" where
  "respondMovies req rnd movies =
     (if q_random req = Some ''true''
      then \<lparr>status = 200, body = MovieBody (randomPick rnd movies) (length movies)\<rparr>
      else \<lparr>status = 200, body = MoviesBody movies (length movies)\<rparr>)"

text \<open>The handler of src/api/watchlist.js (\<^verbatim>\<open>module.exports\<close>).\<close>

definition handler ::
  "request \<Rightarrow> (string \<Rightarrow> nat \<Rightarrow> fetch_result) \<Rightarrow> engine \<Rightarrow> real \<Rightarrow> response option" where
  "handler req fetch engine rnd =
     (if req_method req = ''OPTIONS'' then Some \<lparr>status = 200, body = NoBody\<rparr>
      else
        (case usernameOf req of
           None \<Rightarrow> Some \<lparr>status = 400, body = ErrorBody ''Username required''\<rparr>
         | Some username \<Rightarrow>
             (case pageLoop 20 (apiStep engine (fetch username)) initialState 0 of
                None \<Rightarrow> None
              | Some (Inl r, _) \<Rightarrow> Some r
              | Some (Inr st, _) \<Rightarrow>
                  if length (allMovies st) = 0 then Some emptyList
                  else Some (respondMovies req rnd (allMovies st)))))"

text \<open>\<^verbatim>\<open>handleWatchlistAPI\<close> of the scraping Worker (src/unnamed/part_000, first file).\<close>

definition handleWatchlistAPI ::
  "request \<Rightarrow> (string \<Rightarrow> nat \<Rightarrow> fetch_result) \<Rightarrow> engine \<Rightarrow> real \<Rightarrow> response option" where
  "handleWatchlistAPI req fetch engine rnd =
     (if req_method req = ''OPTIONS'' then Some \<lparr>status = 200, body = NoBody\<rparr>
      else
        (case usernameOf req of
           None \<Rightarrow> Some \<lparr>status = 400, body = ErrorBody ''Username required''\<rparr>
         | Some username \<Rightarrow>
             (case pageLoop 20 (scrapeStep engine (fetch username)) initialState 0 of
                None \<Rightarrow> None
              | Some (Inl r, _) \<Rightarrow> Some r
              | Some (Inr st, _) \<Rightarrow>
                  if length (allMovies st) = 0 then Some emptyList
                  else Some (respondMovies req rnd (allMovies st)))))"

text \<open>
  \<^verbatim>\<open>fallbackScrape\<close> of the StremThru Worker (src/unnamed/part_000, second file). It receives
  the user name and the headers only, and always answers with the whole list.
\<close>

definition fallbackScrape ::
  "string \<Rightarrow> (string \<Rightarrow> nat \<Rightarrow> fetch_result) \<Rightarrow> engine \<Rightarrow> response option" where
  "fallbackScrape username fetch engine =
     (case pageLoop 10 (scrapeStep engine (fetch username)) initialState 0 of
        None \<Rightarrow> None
      | Some (Inl r, _) \<Rightarrow> Some r
      | Some (Inr st, _) \<Rightarrow>
          if length (allMovies st) = 0 then Some emptyList
          else Some \<lparr>status = 200, body = MoviesBody (allMovies st) (length (allMovies st))\<rparr>)"

text \<open>
  \<^verbatim>\<open>handleWatchlistAPI\<close> of the StremThru Worker. The two requests that it makes before any
  scraping are parameters: the watchlist page, of which only the \<^verbatim>\<open>ok\<close> flag and the
  \<^verbatim>\<open>x-letterboxd-identifier\<close> header are read, and the StremThru answer, given as the records
  that \<^verbatim>\<open>data.data.items.map(...)\<close> builds (\<open>None\<close> when \<^verbatim>\<open>data.data\<close> or its \<^verbatim>\<open>items\<close> is
  missing; their \<^verbatim>\<open>tmdb\<close> and \<^verbatim>\<open>imdb\<close> keys are left out).
\<close>

datatype id_result = IdRejected string | IdResponded bool "string option"

datatype data_result = DataRejected string | DataResponded bool "movie list option"

definition handleWatchlistAPI2 ::
  "request \<Rightarrow> id_result \<Rightarrow> data_result \<Rightarrow> (string \<Rightarrow> nat \<Rightarrow> fetch_result) \<Rightarrow> engine \<Rightarrow>
     real \<Rightarrow> response option" where
  "handleWatchlistAPI2 req idResponse dataResponse fetch engine rnd =
     (if req_method req = ''OPTIONS'' then Some \<lparr>status = 200, body = NoBody\<rparr>
      else
        (case usernameOf req of
           None \<Rightarrow> Some \<lparr>status = 400, body = ErrorBody ''Username required''\<rparr>
         | Some username \<Rightarrow>
             (case idResponse of
                IdRejected msg \<Rightarrow> Some \<lparr>status = 500, body = ErrorBody msg\<rparr>
              | IdResponded ok letterboxdId \<Rightarrow>
                  if \<not> ok then Some notFound
                  else if letterboxdId = None \<or> letterboxdId = Some [] then
                    fallbackScrape username fetch engine
                  else
                    (case dataResponse of
                       DataRejected msg \<Rightarrow> Some \<lparr>status = 500, body = ErrorBody msg\<rparr>
                     | DataResponded ok' items \<Rightarrow>
                         if \<not> ok' then fallbackScrape username fetch engine
                         else
                           (case items of
                              None \<Rightarrow> Some \<lparr>status = 404, body = ErrorBody ''Watchlist is empty''\<rparr>
                            | Some movies \<Rightarrow>
                                if length movies = 0
                                then Some \<lparr>status = 404, body = ErrorBody ''Watchlist is empty''\<rparr>
                                else Some (respondMovies req rnd movies))))))"

section \<open>A page that lists many films\<close>



section \<open>The languages of the patterns\<close>

text \<open>
  What a regular expression denotes, independently of the matcher: the set of the texts that
  it matches.
\<close>

inductive_set star :: "string set \<Rightarrow> string set" for A :: "string set" where
  star_nil: "[] \<in> star A"
| star_app: "u \<in> A \<Longrightarrow> v \<in> star A \<Longrightarrow> u @ v \<in> star A"

fun lang :: "bool \<Rightarrow> rx \<Rightarrow> string set" where
  "lang ic (Lit l) = {w. map (canon ic) w = map (canon ic) l}"
| "lang ic (NotIn cs) = {[c] | c. canon ic c \<notin> canon ic ` set cs}"
| "lang ic Digit = {[c] | c. isDigit c}"
| "lang ic (Seq a b) = {u @ v | u v. u \<in> lang ic a \<and> v \<in> lang ic b}"
| "lang ic (Alt a b) = lang ic a \<union> lang ic b"
| "lang ic (Star a) = star (lang ic a)"

section \<open>Scanning with a global expression\<close>

text \<open>
  The successive matches that repeated \<^verbatim>\<open>exec\<close> calls on a global expression find, each
  search starting where the previous match ended, up to the first \<^verbatim>\<open>null\<close>.
\<close>

inductive scans :: "pattern \<Rightarrow> string \<Rightarrow> nat \<Rightarrow> jsmatch list \<Rightarrow> bool" where
  scans_done: "exec False p html lastIndex = None \<Longrightarrow> scans p html lastIndex []"
| scans_step: "exec False p html lastIndex = Some mt \<Longrightarrow> scans p html (m_end mt) ms \<Longrightarrow>
     scans p html lastIndex (mt # ms)"



section \<open>Occurrences of a text\<close>

text \<open>
  \<open>t\<close> occurs in \<open>s\<close> at index \<open>i\<close>; the first occurrence is the one at the least index.
\<close>

definition occursAt :: "string \<Rightarrow> string \<Rightarrow> nat \<Rightarrow> bool" where
  "occursAt s t i \<longleftrightarrow> i \<le> length s \<and> take (length t) (drop i s) = t"

definition firstOccurrence :: "string \<Rightarrow> string \<Rightarrow> nat \<Rightarrow> bool" where
  "firstOccurrence s t i \<longleftrightarrow> occursAt s t i \<and> (\<forall>j<i. \<not> occursAt s t j)"

definition containsText :: "string \<Rightarrow> string \<Rightarrow> bool" where
  "containsText s t \<longleftrightarrow> (\<exists>pre post. s = pre @ t @ post)"

section \<open>The pages behind an aggregated list\<close>


section \<open>The context window\<close>

text \<open>
  The \<open>n\<close> characters before index \<open>i\<close> and the \<open>n\<close> characters from index \<open>i\<close> on, as far
  as the string has them.
\<close>

definition window :: "nat \<Rightarrow> string \<Rightarrow> nat \<Rightarrow> string" where
  "window n s i = drop (i - n) (take (i + n) s)"

section \<open>What the patterns look for\<close>

text \<open>
  The least position of a text at which something is found: \<open>A t v\<close> says that \<open>v\<close> is found at
  the start of \<open>t\<close>; \<open>firstAt A s v\<close> says that \<open>v\<close> is found at some position of \<open>s\<close> and
  nothing is found before; \<open>nowhere A s\<close> says that nothing is found anywhere in \<open>s\<close>.
\<close>

definition firstAt :: "(string \<Rightarrow> 'a \<Rightarrow> bool) \<Rightarrow> string \<Rightarrow> 'a \<Rightarrow> bool" where
  "firstAt A s v \<longleftrightarrow> (\<exists>i. A (drop i s) v \<and> (\<forall>j<i. \<forall>w. \<not> A (drop j s) w))"

definition nowhere :: "(string \<Rightarrow> 'a \<Rightarrow> bool) \<Rightarrow> string \<Rightarrow> bool" where
  "nowhere A s \<longleftrightarrow> (\<forall>i w. \<not> A (drop i s) w)"

text \<open>
  An attribute with a value: one of the names, \<^verbatim>\<open>="\<close>, a non-empty value without a double
  quote, and the closing double quote.
\<close>

definition attrHere :: "string list \<Rightarrow> string \<Rightarrow> string \<Rightarrow> bool" where
  "attrHere names t v \<longleftrightarrow>
     v \<noteq> [] \<and> dq \<notin> set v \<and> (\<exists>n\<in>set names. \<exists>rest. t = n @ ''='' @ [dq] @ v @ [dq] @ rest)"

definition nameAttrs :: "string list" where
  "nameAttrs = [''data-film-name'', ''data-item-name'']"

definition altAttrs :: "string list" where
  "altAttrs = [''alt'']"

text \<open>A parenthesised year: \<^verbatim>\<open>(\<close>, four decimal digits, \<^verbatim>\<open>)\<close>.\<close>

definition yearHere :: "string \<Rightarrow> string \<Rightarrow> bool" where
  "yearHere t v \<longleftrightarrow>
     length v = 4 \<and> (\<forall>c\<in>set v. isDigit c) \<and> (\<exists>rest. t = ''('' @ v @ '')'' @ rest)"

section \<open>Replacing the first token\<close>

text \<open>
  A token of \<open>r\<close> stands at the start of \<open>t\<close>. \<open>replacesFirst r rep s out\<close>: either \<open>s\<close> has no
  token of \<open>r\<close> and \<open>out\<close> is \<open>s\<close>, or \<open>out\<close> is \<open>s\<close> with one token replaced by \<open>rep\<close>, no
  token of \<open>r\<close> starting before the replaced one, and nothing else changed.
\<close>

definition tokenHere :: "rx \<Rightarrow> string \<Rightarrow> string \<Rightarrow> bool" where
  "tokenHere r t w \<longleftrightarrow> w \<in> lang False r \<and> (\<exists>rest. t = w @ rest)"

definition replacesFirst :: "rx \<Rightarrow> string \<Rightarrow> string \<Rightarrow> string \<Rightarrow> bool" where
  "replacesFirst r rep s out \<longleftrightarrow>
     (nowhere (tokenHere r) s \<and> out = s) \<or>
     (\<exists>pre w post. s = pre @ w @ post \<and> w \<in> lang False r \<and>
        (\<forall>j<length pre. \<forall>w'. \<not> tokenHere r (drop j s) w') \<and> out = pre @ rep @ post)"

text \<open>A link to a film: \<^verbatim>\<open>href="/film/\<close>, a non-empty slug without \<^verbatim>\<open>/\<close> or \<^verbatim>\<open>"\<close>, and \<^verbatim>\<open>/"\<close>.\<close>

definition linkHere :: "string \<Rightarrow> string \<Rightarrow> bool" where
  "linkHere t v \<longleftrightarrow>
     v \<noteq> [] \<and> CHR ''/'' \<notin> set v \<and> dq \<notin> set v \<and>
     (\<exists>rest. t = ''href='' @ [dq] @ ''/film/'' @ v @ ''/'' @ [dq] @ rest)"

section \<open>The matcher and the languages\<close>

lemma rxMatch_sound: "r \<in> set (rxMatch ic x s) \<Longrightarrow> \<exists>w. s = w @ r \<and> w \<in> lang ic x"
proof (induction ic x s arbitrary: r rule: rxMatch.induct)
  case (1 ic l s)
  then have eq: "map (canon ic) (take (length l) s) = map (canon ic) l" and r: "r = drop (length l) s"
    by (auto split: if_splits)
  have "s = take (length l) s @ r" using r by simp
  with eq show ?case unfolding lang.simps by blast
next
  case (2 ic cs s)
  then show ?case by (auto split: list.splits if_splits)
next
  case (3 ic s)
  then show ?case by (auto split: list.splits if_splits)
next
  case (4 ic a b s)
  from "4.prems" obtain t where t: "t \<in> set (rxMatch ic a s)" and r: "r \<in> set (rxMatch ic b t)"
    by auto
  from "4.IH"(1)[OF t] obtain u where u: "s = u @ t" "u \<in> lang ic a" by blast
  from "4.IH"(2)[OF t r] obtain v where v: "t = v @ r" "v \<in> lang ic b" by blast
  have "s = (u @ v) @ r" using u v by simp
  moreover have "u @ v \<in> lang ic (Seq a b)" using u v by auto
  ultimately show ?case by blast
next
  case (5 ic a b s)
  then show ?case by auto
next
  case (6 ic a s)
  from "6.prems" have "r \<in> set (concat (map (\<lambda>t. if length t < length s then rxMatch ic (Star a) t else [])
       (rxMatch ic a s)) @ [s])" by (subst (asm) rxMatch_Star) 
  then consider (stop) "r = s"
    | (iter) t where "t \<in> set (rxMatch ic a s)" "length t < length s" "r \<in> set (rxMatch ic (Star a) t)"
    by (auto split: if_splits)
  then show ?case
  proof cases
    case stop
    then show ?thesis by (auto intro: star_nil)
  next
    case iter
    from "6.IH"(1)[OF iter(1)] obtain u where u: "s = u @ t" "u \<in> lang ic a" by blast
    from "6.IH"(2)[OF iter(1) iter(2) iter(3)] obtain v where v: "t = v @ r" "v \<in> lang ic (Star a)" by blast
    have "s = (u @ v) @ r" using u v by simp
    moreover have "u @ v \<in> lang ic (Star a)" using u v by (auto intro: star_app)
    ultimately show ?thesis by blast
  qed
qed

lemma star_complete:
  assumes a: "\<And>w r. w \<in> lang ic a \<Longrightarrow> r \<in> set (rxMatch ic a (w @ r))"
  shows "w \<in> star (lang ic a) \<Longrightarrow> r \<in> set (rxMatch ic (Star a) (w @ r))"
proof (induction w rule: star.induct)
  case star_nil
  show ?case by (subst rxMatch_Star) simp
next
  case (star_app u v)
  show ?case
  proof (cases "u = []")
    case True
    with star_app show ?thesis by simp
  next
    case False
    have t: "v @ r \<in> set (rxMatch ic a (u @ v @ r))" using a[OF star_app(1)] .
    have "length (v @ r) < length (u @ v @ r)" using False by simp
    with t star_app(3) show ?thesis
      by (subst rxMatch_Star) (auto intro!: bexI[of _ "v @ r"])
  qed
qed

lemma rxMatch_complete: "w \<in> lang ic x \<Longrightarrow> r \<in> set (rxMatch ic x (w @ r))"
proof (induction x arbitrary: w r)
  case (Lit l)
  then have "map (canon ic) w = map (canon ic) l" by simp
  moreover from this have "length w = length l" by (metis length_map)
  ultimately show ?case by simp
next
  case (Seq a b)
  then obtain u v where "w = u @ v" "u \<in> lang ic a" "v \<in> lang ic b" by auto
  with Seq.IH(1)[of u "v @ r"] Seq.IH(2)[of v r] show ?case by auto
next
  case (Star a)
  then show ?case using star_complete[of ic a w r] by simp
next
  case (NotIn cs)
  then obtain c where "w = [c]" "canon ic c \<notin> canon ic ` set cs" by auto
  then show ?case by simp
next
  case Digit
  then obtain c where "w = [c]" "isDigit c" by auto
  then show ?case by simp
next
  case (Alt a b)
  then show ?case by auto
qed


lemma rxMatch_length: "r \<in> set (rxMatch ic x s) \<Longrightarrow> length r \<le> length s"
  using rxMatch_sound[of r ic x s] by auto

lemma patMatch_set:
  "set (patMatch ic p s) =
     {(take (length s1 - length s2) s1, s3) | s1 s2 s3.
        s1 \<in> set (rxMatch ic (before p) s) \<and> s2 \<in> set (rxMatch ic (group1 p) s1)
        \<and> s3 \<in> set (rxMatch ic (after p) s2)}"
  unfolding patMatch_def by auto

lemma patMatch_sound:
  assumes "(g, r) \<in> set (patMatch ic p s)"
  shows "\<exists>u v. s = u @ g @ v @ r \<and> u \<in> lang ic (before p) \<and> g \<in> lang ic (group1 p)
           \<and> v \<in> lang ic (after p)"
proof -
  from assms obtain s1 s2 where s1: "s1 \<in> set (rxMatch ic (before p) s)"
    and s2: "s2 \<in> set (rxMatch ic (group1 p) s1)"
    and r: "r \<in> set (rxMatch ic (after p) s2)"
    and g: "g = take (length s1 - length s2) s1"
    unfolding patMatch_def by auto
  from rxMatch_sound[OF s1] obtain u where u: "s = u @ s1" "u \<in> lang ic (before p)" by blast
  from rxMatch_sound[OF s2] obtain g' where g': "s1 = g' @ s2" "g' \<in> lang ic (group1 p)" by blast
  from rxMatch_sound[OF r] obtain v where v: "s2 = v @ r" "v \<in> lang ic (after p)" by blast
  have "g = g'" using g g' by simp
  with u g' v show ?thesis by auto
qed

lemma patMatch_complete:
  assumes "u \<in> lang ic (before p)" "g \<in> lang ic (group1 p)" "v \<in> lang ic (after p)"
  shows "(g, r) \<in> set (patMatch ic p (u @ g @ v @ r))"
proof -
  have 1: "g @ v @ r \<in> set (rxMatch ic (before p) (u @ g @ v @ r))"
    using rxMatch_complete[OF assms(1)] .
  have 2: "v @ r \<in> set (rxMatch ic (group1 p) (g @ v @ r))"
    using rxMatch_complete[OF assms(2)] .
  have 3: "r \<in> set (rxMatch ic (after p) (v @ r))"
    using rxMatch_complete[OF assms(3)] .
  have "(take (length (g @ v @ r) - length (v @ r)) (g @ v @ r), r) \<in> set (patMatch ic p (u @ g @ v @ r))"
    unfolding patMatch_set using 1 2 3 by blast
  then show ?thesis by simp
qed

lemma search_None: "search ic p s k = None \<longleftrightarrow> (\<forall>i\<le>length s. patMatch ic p (drop i s) = [])"
proof (induction s arbitrary: k)
  case Nil
  show ?case by (auto split: list.splits)
next
  case (Cons c s)
  show ?case
  proof (cases "patMatch ic p (c # s)")
    case Nil
    have "(\<forall>i\<le>length (c # s). patMatch ic p (drop i (c # s)) = []) \<longleftrightarrow>
          (\<forall>i\<le>length s. patMatch ic p (drop i s) = [])"
    proof
      assume a: "\<forall>i\<le>length (c # s). patMatch ic p (drop i (c # s)) = []"
      show "\<forall>i\<le>length s. patMatch ic p (drop i s) = []"
      proof (intro allI impI)
        fix i assume "i \<le> length s"
        then have "patMatch ic p (drop (Suc i) (c # s)) = []" using a by (metis Suc_le_mono length_Cons)
        then show "patMatch ic p (drop i s) = []" by simp
      qed
    next
      assume a: "\<forall>i\<le>length s. patMatch ic p (drop i s) = []"
      show "\<forall>i\<le>length (c # s). patMatch ic p (drop i (c # s)) = []"
      proof (intro allI impI)
        fix i assume i: "i \<le> length (c # s)"
        show "patMatch ic p (drop i (c # s)) = []"
        proof (cases i)
          case 0
          then show ?thesis using Nil by simp
        next
          case (Suc j)
          then show ?thesis using a i by simp
        qed
      qed
    qed
    with Nil Cons.IH[of "Suc k"] show ?thesis by simp
  next
    case (Cons a list)
    then have "search ic p (c # s) k \<noteq> None" by (auto split: prod.splits)
    moreover have "\<not> (\<forall>i\<le>length (c # s). patMatch ic p (drop i (c # s)) = [])"
      using Cons by (auto intro!: exI[of _ 0])
    ultimately show ?thesis by blast
  qed
qed

text \<open>The match that \<open>search\<close> returns is the first result of the matcher at the least
  position where the matcher has a result.\<close>

lemma search_Some:
  assumes "search ic p s k = Some mt"
  shows "\<exists>i g r rest. i \<le> length s \<and> (\<forall>j<i. patMatch ic p (drop j s) = [])
           \<and> patMatch ic p (drop i s) = (g, r) # rest
           \<and> m_index mt = k + i \<and> m_group mt = g
           \<and> m_text mt = take (length s - i - length r) (drop i s)
           \<and> m_end mt = k + i + (length s - i - length r)"
  using assms
proof (induction s arbitrary: k)
  case Nil
  then show ?case by (auto split: list.splits)
next
  case (Cons c s)
  show ?case
  proof (cases "patMatch ic p (c # s)")
    case Nil
    with Cons.prems have "search ic p s (Suc k) = Some mt" by simp
    from Cons.IH[OF this] obtain i g r rest where i: "i \<le> length s"
      "\<forall>j<i. patMatch ic p (drop j s) = []" "patMatch ic p (drop i s) = (g, r) # rest"
      "m_index mt = Suc k + i" "m_group mt = g"
      "m_text mt = take (length s - i - length r) (drop i s)"
      "m_end mt = Suc k + i + (length s - i - length r)" by blast
    have "\<forall>j<Suc i. patMatch ic p (drop j (c # s)) = []"
    proof (intro allI impI)
      fix j assume "j < Suc i"
      then show "patMatch ic p (drop j (c # s)) = []" using Nil i(2) by (cases j) auto
    qed
    with i show ?thesis
      by (intro exI[of _ "Suc i"] exI[of _ g] exI[of _ r] exI[of _ rest]) simp
  next
    case (Cons a list)
    obtain g r where a: "a = (g, r)" by (cases a)
    with Cons Cons.prems show ?thesis
      by (intro exI[of _ 0] exI[of _ g] exI[of _ r] exI[of _ list]) auto
  qed
qed

section \<open>The scanning loops return\<close>

lemma exec_advances:
  assumes ne: "[] \<notin> lang ic (before p)" and ex: "exec ic p html li = Some mt"
  shows "li < m_end mt \<and> m_end mt \<le> length html"
proof -
  from ex have li: "li \<le> length html" and s: "search ic p (drop li html) li = Some mt"
    unfolding exec_def by (auto split: if_splits)
  from search_Some[OF s] obtain i g r rest where i: "i \<le> length (drop li html)"
    and pm: "patMatch ic p (drop i (drop li html)) = (g, r) # rest"
    and e: "m_end mt = li + i + (length (drop li html) - i - length r)" by blast
  from pm have "(g, r) \<in> set (patMatch ic p (drop i (drop li html)))" by simp
  from patMatch_sound[OF this] obtain u v where d: "drop i (drop li html) = u @ g @ v @ r"
    and u: "u \<in> lang ic (before p)" by blast
  from u ne have "u \<noteq> []" by auto
  then have "length r < length (drop i (drop li html))" unfolding d by simp
  then have "length r < length html - li - i" by simp
  with e i li show ?thesis by simp
qed

lemma scans_total:
  assumes ne: "[] \<notin> lang False (before p)"
  shows "\<exists>ms. scans p html li ms"
proof (induction "Suc (length html) - li" arbitrary: li rule: less_induct)
  case less
  show ?case
  proof (cases "exec False p html li")
    case None
    then show ?thesis by (blast intro: scans_done)
  next
    case (Some mt)
    from exec_advances[OF ne Some] have "Suc (length html) - m_end mt < Suc (length html) - li"
      by arith
    from less[OF this] obtain ms where "scans p html (m_end mt) ms" by blast
    with Some show ?thesis by (blast intro: scans_step)
  qed
qed

lemma collect_scans:
  "scans p html li ms \<Longrightarrow> collect p html li seen = Some (foldl addSlug seen (map m_group ms))"
proof (induction arbitrary: seen rule: scans.induct)
  case (scans_done p html lastIndex)
  then show ?case by (subst collect.simps) simp
next
  case (scans_step p html lastIndex mt ms)
  show ?case by (subst collect.simps) (simp add: scans_step)
qed

lemma set_foldl_addSlug: "set (foldl addSlug seen xs) = set seen \<union> set xs"
  by (induction xs arbitrary: seen) (auto simp: addSlug_def)

lemma distinct_foldl_addSlug: "distinct seen \<Longrightarrow> distinct (foldl addSlug seen xs)"
  by (induction xs arbitrary: seen) (auto simp: addSlug_def)

lemma lang_Lit_nonempty: "l \<noteq> [] \<Longrightarrow> [] \<notin> lang ic (Lit l)"
  by auto

lemma lang_Seq_nonempty: "[] \<notin> lang ic a \<Longrightarrow> [] \<notin> lang ic (Seq a b)"
  by auto

lemma slugPatterns_advance:
  "[] \<notin> lang False (before slugPattern1)" "[] \<notin> lang False (before slugPattern2)"
  "[] \<notin> lang False (before slugPattern3)" "[] \<notin> lang False (before slugPattern)"
  by (simp_all add: slugPattern1_def slugPattern2_def slugPattern3_def slugPattern_def)

lemma collectSlugs_scans:
  "\<exists>ms1 ms2 ms3. scans slugPattern1 html 0 ms1 \<and> scans slugPattern2 html 0 ms2
     \<and> scans slugPattern3 html 0 ms3
     \<and> collectSlugs html = Some (foldl addSlug [] (map m_group (ms1 @ ms2 @ ms3)))"
proof -
  from scans_total[OF slugPatterns_advance(1)] obtain ms1 where 1: "scans slugPattern1 html 0 ms1" by blast
  from scans_total[OF slugPatterns_advance(2)] obtain ms2 where 2: "scans slugPattern2 html 0 ms2" by blast
  from scans_total[OF slugPatterns_advance(3)] obtain ms3 where 3: "scans slugPattern3 html 0 ms3" by blast
  have "collectSlugs html = Some (foldl addSlug [] (map m_group (ms1 @ ms2 @ ms3)))"
    unfolding collectSlugs_def by (simp add: collect_scans[OF 1] collect_scans[OF 2] collect_scans[OF 3])
  with 1 2 3 show ?thesis by blast
qed

lemma parseMovies_total: "\<exists>ms. parseMovies html = Some ms"
  using collectSlugs_scans[of html] unfolding parseMovies_def by auto

lemma parseMovies_api_total: "\<exists>ms. parseMovies_api html = Some ms"
proof -
  from scans_total[OF slugPatterns_advance(4)] obtain ms where "scans slugPattern html 0 ms" by blast
  from collect_scans[OF this] show ?thesis unfolding parseMovies_api_def by simp
qed

lemma pageLoop_bounded:
  assumes tot: "\<And>st. \<exists>res. step st = Some res"
    and adv: "\<And>st st'. step st = Some (Inr st') \<Longrightarrow> \<not> hasMore st' \<or> page st' = Suc (page st)"
  shows "\<exists>res k. pageLoop cap step st n = Some (res, k) \<and> k \<le> n + (Suc cap - page st)"
proof (induction "Suc cap - page st" arbitrary: st n rule: less_induct)
  case less
  show ?case
  proof (cases "hasMore st \<and> page st \<le> cap")
    case False
    then show ?thesis by (subst pageLoop.simps) auto
  next
    case True
    from tot[of st] obtain res where res: "step st = Some res" by blast
    show ?thesis
    proof (cases res)
      case (Inl r)
      with res True show ?thesis by (subst pageLoop.simps) auto
    next
      case (Inr st')
      show ?thesis
      proof (cases "hasMore st'")
        case False
        have "pageLoop cap step st' (Suc n) = Some (Inr st', Suc n)"
          using False by (subst pageLoop.simps) simp
        with res Inr True show ?thesis by (subst pageLoop.simps) auto
      next
        case h: True
        with adv[of st st'] res Inr have p: "page st' = Suc (page st)" by simp
        then have "Suc cap - page st' < Suc cap - page st" using True by arith
        from less[OF this, of "Suc n"] obtain r k where
          "pageLoop cap step st' (Suc n) = Some (r, k)" "k \<le> Suc n + (Suc cap - page st')" by blast
        with res Inr True p show ?thesis by (subst pageLoop.simps) auto
      qed
    qed
  qed
qed

lemma scrapeStep_total: "\<exists>res. scrapeStep engine fetch st = Some res"
proof (cases "fetch (page st)")
  case (Rejected msg)
  then show ?thesis by (simp add: scrapeStep_def)
next
  case (Responded ok html)
  from parseMovies_total obtain ms where "parseMovies html = Some ms" by blast
  with Responded show ?thesis by (simp add: scrapeStep_def split: option.splits)
qed

lemma scrapeStep_advances:
  "scrapeStep engine fetch st = Some (Inr st') \<Longrightarrow> \<not> hasMore st' \<or> page st' = Suc (page st)"
  unfolding scrapeStep_def by (auto split: fetch_result.splits if_splits option.splits)

lemma apiStep_total: "\<exists>res. apiStep engine fetch st = Some res"
proof (cases "fetch (page st)")
  case (Rejected msg)
  then show ?thesis by (simp add: apiStep_def)
next
  case (Responded ok html)
  from parseMovies_api_total obtain ms where "parseMovies_api html = Some ms" by blast
  with Responded show ?thesis by (cases ok) (simp_all add: apiStep_def split: option.splits)
qed

lemma apiStep_advances:
  "apiStep engine fetch st = Some (Inr st') \<Longrightarrow> \<not> hasMore st' \<or> page st' = Suc (page st)"
  unfolding apiStep_def by (auto split: fetch_result.splits if_splits option.splits bool.splits)

section \<open>The pagination loop\<close>





lemma scrapeLoop_returns:
  "\<exists>res k. pageLoop cap (scrapeStep engine fetch) st n = Some (res, k) \<and> k \<le> n + (Suc cap - page st)"
  by (rule pageLoop_bounded[OF scrapeStep_total scrapeStep_advances])

lemma apiLoop_returns:
  "\<exists>res k. pageLoop cap (apiStep engine fetch) st n = Some (res, k) \<and> k \<le> n + (Suc cap - page st)"
  by (rule pageLoop_bounded[OF apiStep_total apiStep_advances])







text \<open>
  Claim C8: whatever the fetcher answers, the pagination loop returns after at most 20
  iterations in src/api/watchlist.js and in the scraping Worker, and after at most 10 in
  \<^verbatim>\<open>fallbackScrape\<close>.
\<close>

theorem pagination_bounded:
  "(\<exists>res k. pageLoop 20 (apiStep engine fetch) initialState 0 = Some (res, k) \<and> k \<le> 20)
   \<and> (\<exists>res k. pageLoop 20 (scrapeStep engine fetch) initialState 0 = Some (res, k) \<and> k \<le> 20)
   \<and> (\<exists>res k. pageLoop 10 (scrapeStep engine fetch) initialState 0 = Some (res, k) \<and> k \<le> 10)"
  using apiLoop_returns[of 20 engine fetch initialState 0] scrapeLoop_returns[of 20 engine fetch initialState 0]
    scrapeLoop_returns[of 10 engine fetch initialState 0]
  by (simp add: initialState_def)


text \<open>
  Claim C8, witnessed on a fetcher whose page \<open>p\<close> lists one film, a different one on every
  page: the loop of \<^verbatim>\<open>fallbackScrape\<close> stops after exactly 10 iterations.
\<close>

theorem pagination_bounded_witness:
  "(\<exists>res k. pageLoop 10 (scrapeStep sampleEngine (\<lambda>p. Responded True
        (''data-film-slug='' @ [dq] @ replicate p (CHR ''a'') @ [dq]))) initialState 0 = Some (res, k)
      \<and> k \<le> 10)
   \<and> map_option snd (pageLoop 10 (scrapeStep sampleEngine (\<lambda>p. Responded True
        (''data-film-slug='' @ [dq] @ replicate p (CHR ''a'') @ [dq]))) initialState 0) = Some 10"
proof -
  have "map_option snd (pageLoop 10 (scrapeStep sampleEngine (\<lambda>p. Responded True
        (''data-film-slug='' @ [dq] @ replicate p (CHR ''a'') @ [dq]))) initialState 0) = Some 10"
    by code_simp
  with pagination_bounded[of sampleEngine "\<lambda>p. Responded True
        (''data-film-slug='' @ [dq] @ replicate p (CHR ''a'') @ [dq])"]
  show ?thesis by blast
qed

section \<open>Occurrences and \<^verbatim>\<open>indexOf\<close>\<close>

lemma occursAt_Cons_Suc: "occursAt (c # s) t (Suc i) \<longleftrightarrow> occursAt s t i"
  by (simp add: occursAt_def)

lemma occursAt_Cons_0: "occursAt (c # s) t 0 \<longleftrightarrow> take (length t) (c # s) = t"
  by (simp add: occursAt_def)

lemma indexOfFrom_first:
  "firstOccurrence s t i \<Longrightarrow> indexOfFrom t s k = int (k + i)"
proof (induction s arbitrary: k i)
  case Nil
  then show ?case by (auto simp: firstOccurrence_def occursAt_def)
next
  case (Cons c s)
  show ?case
  proof (cases "take (length t) (c # s) = t")
    case True
    then have "occursAt (c # s) t 0" by (simp add: occursAt_Cons_0)
    with Cons.prems have "i = 0" unfolding firstOccurrence_def by (cases i) auto
    with True show ?thesis by simp
  next
    case False
    then have n0: "\<not> occursAt (c # s) t 0" by (simp add: occursAt_Cons_0)
    with Cons.prems obtain j where j: "i = Suc j" unfolding firstOccurrence_def by (cases i) auto
    have "firstOccurrence s t j"
      unfolding firstOccurrence_def
    proof (intro conjI allI impI)
      show "occursAt s t j" using Cons.prems j by (simp add: firstOccurrence_def occursAt_Cons_Suc)
    next
      fix l assume "l < j"
      then have "Suc l < i" using j by simp
      with Cons.prems have "\<not> occursAt (c # s) t (Suc l)" unfolding firstOccurrence_def by blast
      then show "\<not> occursAt s t l" by (simp add: occursAt_Cons_Suc)
    qed
    from Cons.IH[OF this, of "Suc k"] False j show ?thesis by simp
  qed
qed

lemma indexOfFrom_none: "indexOfFrom t s k = - 1 \<longleftrightarrow> (\<forall>i. \<not> occursAt s t i)"
proof (induction s arbitrary: k)
  case Nil
  show ?case by (auto simp: occursAt_def)
next
  case (Cons c s)
  show ?case
  proof (cases "take (length t) (c # s) = t")
    case True
    then have "occursAt (c # s) t 0" by (simp add: occursAt_Cons_0)
    with True show ?thesis by auto
  next
    case False
    have "(\<forall>i. \<not> occursAt (c # s) t i) \<longleftrightarrow> (\<forall>i. \<not> occursAt s t i)"
    proof
      assume a: "\<forall>i. \<not> occursAt (c # s) t i"
      show "\<forall>i. \<not> occursAt s t i"
      proof
        fix i from a have "\<not> occursAt (c # s) t (Suc i)" by blast
        then show "\<not> occursAt s t i" by (simp add: occursAt_Cons_Suc)
      qed
    next
      assume a: "\<forall>i. \<not> occursAt s t i"
      show "\<forall>i. \<not> occursAt (c # s) t i"
      proof
        fix i show "\<not> occursAt (c # s) t i"
          using a False by (cases i) (simp_all add: occursAt_Cons_0 occursAt_Cons_Suc)
      qed
    qed
    with Cons.IH[of "Suc k"] False show ?thesis by simp
  qed
qed

lemma first_exists: "occursAt s t i \<Longrightarrow> \<exists>j\<le>i. firstOccurrence s t j"
proof (induction i rule: less_induct)
  case (less i)
  show ?case
  proof (cases "\<exists>j<i. occursAt s t j")
    case True
    then obtain j where "j < i" "occursAt s t j" by blast
    with less.IH[of j] show ?thesis by (meson le_trans less_imp_le_nat)
  next
    case False
    with less.prems have "firstOccurrence s t i" by (simp add: firstOccurrence_def)
    then show ?thesis by blast
  qed
qed

lemma occursAt_contains: "(\<exists>i. occursAt s t i) \<longleftrightarrow> containsText s t"
proof
  assume "\<exists>i. occursAt s t i"
  then obtain i where i: "i \<le> length s" "take (length t) (drop i s) = t" unfolding occursAt_def by blast
  have "s = take i s @ take (length t) (drop i s) @ drop (length t) (drop i s)"
    by (simp only: append_take_drop_id)
  with i show "containsText s t" unfolding containsText_def by metis
next
  assume "containsText s t"
  then obtain pre post where "s = pre @ t @ post" unfolding containsText_def by blast
  then have "occursAt s t (length pre)" by (simp add: occursAt_def)
  then show "\<exists>i. occursAt s t i" by blast
qed

lemma includesStr_contains: "includesStr s t \<longleftrightarrow> containsText s t"
  unfolding includesStr_def indexOf_def using indexOfFrom_none[of t s 0] occursAt_contains[of s t]
  by blast

lemma indexOf_first: "firstOccurrence s t i \<Longrightarrow> indexOf s t = int i"
  unfolding indexOf_def using indexOfFrom_first[of s t i 0] by simp

section \<open>The handlers\<close>

lemma isChallenge_contains:
  "isChallenge html \<longleftrightarrow>
     containsText html ''challenge-platform'' \<or> containsText html ''Just a moment''"
  by (simp add: isChallenge_def includesStr_contains)



lemma slug_movieFrom: "slug (movieFrom sl section) = sl"
  by (simp add: movieFrom_def Let_def)




text \<open>
  Claim C6: when the body of a fetched page contains \<^verbatim>\<open>challenge-platform\<close> or
  \<^verbatim>\<open>Just a moment\<close>, every handler answers 503 with \<^verbatim>\<open>cloudflare: true\<close> if the page is
  page 1, and on a later page the loop ends with the movies collected so far, only
  \<^verbatim>\<open>hasMore\<close> changed.
\<close>

theorem challenge_handling:
  assumes marker: "containsText html ''challenge-platform'' \<or> containsText html ''Just a moment''"
    and req: "req_method req \<noteq> ''OPTIONS''" "usernameOf req = Some u"
  shows "(fetch u 1 = Responded True html \<longrightarrow>
            handler req fetch engine rnd = Some blocked \<and> handleWatchlistAPI req fetch engine rnd = Some blocked
            \<and> fallbackScrape u fetch engine = Some blocked)
         \<and> status blocked = 503
         \<and> body blocked = BlockedBody ''Letterboxd is blocking requests. Try again later.''
         \<and> (1 < page st \<and> page st \<le> cap \<and> hasMore st \<and> fetch u (page st) = Responded True html \<longrightarrow>
              pageLoop cap (apiStep engine (fetch u)) st n = Some (Inr (st\<lparr>hasMore := False\<rparr>), Suc n)
              \<and> pageLoop cap (scrapeStep engine (fetch u)) st n = Some (Inr (st\<lparr>hasMore := False\<rparr>), Suc n))"
proof -
  from marker have ch: "isChallenge html" by (simp add: isChallenge_contains)
  have first: "pageLoop cap (apiStep engine (fetch u)) initialState 0 = Some (Inl blocked, Suc 0)
      \<and> pageLoop cap (scrapeStep engine (fetch u)) initialState 0 = Some (Inl blocked, Suc 0)"
    if "fetch u 1 = Responded True html" "1 \<le> cap" for cap
    using that ch
    by (subst pageLoop.simps, simp add: initialState_def apiStep_def,
        subst pageLoop.simps, simp add: initialState_def scrapeStep_def)
  have later: "pageLoop cap (apiStep engine (fetch u)) st n = Some (Inr (st\<lparr>hasMore := False\<rparr>), Suc n)
      \<and> pageLoop cap (scrapeStep engine (fetch u)) st n = Some (Inr (st\<lparr>hasMore := False\<rparr>), Suc n)"
    if "1 < page st" "page st \<le> cap" "hasMore st" "fetch u (page st) = Responded True html"
  proof -
    have stop: "pageLoop cap step (st\<lparr>hasMore := False\<rparr>) (Suc n) = Some (Inr (st\<lparr>hasMore := False\<rparr>), Suc n)"
      for step by (subst pageLoop.simps) simp
    have a: "apiStep engine (fetch u) st = Some (Inr (st\<lparr>hasMore := False\<rparr>))"
      using that ch by (simp add: apiStep_def)
    have s: "scrapeStep engine (fetch u) st = Some (Inr (st\<lparr>hasMore := False\<rparr>))"
      using that ch by (simp add: scrapeStep_def)
    show ?thesis
      using that a s stop by (subst pageLoop.simps, simp, subst pageLoop.simps, simp)
  qed
  show ?thesis
    using first[of 20] first[of 10] later req
    by (auto simp: handler_def handleWatchlistAPI_def fallbackScrape_def blocked_def)
qed


text \<open>
  Claim C6, witnessed on a fetcher that always answers with a challenge page: every handler
  answers 503, and the loop entered at page 2 with one movie collected ends with that movie.
\<close>

theorem challenge_handling_witness:
  "handler \<lparr>req_method = ''GET'', q_username = Some ''u'', q_user = None, q_random = None\<rparr>
     (\<lambda>u p. Responded True ''<title>Just a moment...</title>'') sampleEngine 0 = Some blocked
   \<and> handleWatchlistAPI
       \<lparr>req_method = ''GET'', q_username = Some ''u'', q_user = None, q_random = None\<rparr>
       (\<lambda>u p. Responded True ''<title>Just a moment...</title>'') sampleEngine 0 = Some blocked
   \<and> fallbackScrape ''u'' (\<lambda>u p. Responded True ''<title>Just a moment...</title>'') sampleEngine
       = Some blocked
   \<and> pageLoop 20 (scrapeStep sampleEngine (\<lambda>p. Responded True ''<title>Just a moment...</title>''))
       \<lparr>page = 2, hasMore = True, allMovies = [\<lparr>slug = ''dune'', title = ''dune'',
          year = Some [], poster = [], link = ''https://letterboxd.com/film/dune/''\<rparr>]\<rparr> 0 =
     Some (Inr \<lparr>page = 2, hasMore = False, allMovies = [\<lparr>slug = ''dune'', title = ''dune'',
          year = Some [], poster = [], link = ''https://letterboxd.com/film/dune/''\<rparr>]\<rparr>, Suc 0)"
proof -
  have c: "containsText ''<title>Just a moment...</title>'' ''Just a moment''"
    unfolding containsText_def by (intro exI[of _ "''<title>''"] exI[of _ "''...</title>''"]) simp
  from challenge_handling[where html = "''<title>Just a moment...</title>''"
      and req = "\<lparr>req_method = ''GET'', q_username = Some ''u'', q_user = None, q_random = None\<rparr>"
      and u = "''u''" and fetch = "\<lambda>u p. Responded True ''<title>Just a moment...</title>''"
      and engine = sampleEngine and rnd = 0 and cap = 20 and n = 0
      and st = "\<lparr>page = 2, hasMore = True, allMovies = [\<lparr>slug = ''dune'', title = ''dune'',
          year = Some [], poster = [], link = ''https://letterboxd.com/film/dune/''\<rparr>]\<rparr>"] c
  show ?thesis by (simp add: usernameOf_def)
qed

lemma floor_index:
  assumes "0 \<le> rnd" "rnd < 1" "0 < n"
  shows "0 \<le> \<lfloor>rnd * real n\<rfloor> \<and> \<lfloor>rnd * real n\<rfloor> < int n"
proof -
  have "0 \<le> rnd * real n" using assms by simp
  then have 1: "0 \<le> \<lfloor>rnd * real n\<rfloor>" by simp
  have "rnd * real n < real n" using assms by simp
  then have "\<lfloor>rnd * real n\<rfloor> < int n" by (simp add: floor_less_iff)
  with 1 show ?thesis by simp
qed

lemma randomPick_in_range:
  assumes "0 \<le> rnd" "rnd < 1" "movies \<noteq> []"
  shows "\<exists>i<length movies. randomPick rnd movies = Some (movies ! i)"
proof -
  from floor_index[OF assms(1,2), of "length movies"] assms(3)
  have f: "0 \<le> \<lfloor>rnd * real (length movies)\<rfloor>" "\<lfloor>rnd * real (length movies)\<rfloor> < int (length movies)"
    by auto
  then have "nat \<lfloor>rnd * real (length movies)\<rfloor> < length movies" by linarith
  moreover have "randomPick rnd movies = Some (movies ! nat \<lfloor>rnd * real (length movies)\<rfloor>)"
    using f by (simp add: randomPick_def Let_def)
  ultimately show ?thesis by blast
qed

lemma random_response_primary:
  assumes rnd: "0 \<le> rnd" "rnd < 1" and q: "q_random req = Some ''true''"
    and req: "req_method req \<noteq> ''OPTIONS''" "usernameOf req = Some u"
  shows "pageLoop 20 (apiStep engine (fetch u)) initialState 0 = Some (Inr st, k) \<Longrightarrow> allMovies st \<noteq> [] \<Longrightarrow>
           \<exists>i<length (allMovies st). handler req fetch engine rnd =
             Some \<lparr>status = 200, body = MovieBody (Some (allMovies st ! i)) (length (allMovies st))\<rparr>"
    and "pageLoop 20 (scrapeStep engine (fetch u)) initialState 0 = Some (Inr st, k) \<Longrightarrow> allMovies st \<noteq> [] \<Longrightarrow>
           \<exists>i<length (allMovies st). handleWatchlistAPI req fetch engine rnd =
             Some \<lparr>status = 200, body = MovieBody (Some (allMovies st ! i)) (length (allMovies st))\<rparr>"
    and "movies \<noteq> [] \<Longrightarrow> \<exists>i<length movies.
           handleWatchlistAPI2 req (IdResponded True (Some (c # cs))) (DataResponded True (Some movies))
             fetch engine rnd =
               Some \<lparr>status = 200, body = MovieBody (Some (movies ! i)) (length movies)\<rparr>"
proof -
  show "\<exists>i<length (allMovies st). handler req fetch engine rnd =
             Some \<lparr>status = 200, body = MovieBody (Some (allMovies st ! i)) (length (allMovies st))\<rparr>"
    if "pageLoop 20 (apiStep engine (fetch u)) initialState 0 = Some (Inr st, k)" "allMovies st \<noteq> []"
    using randomPick_in_range[OF rnd that(2)] that q req
    by (auto simp: handler_def respondMovies_def)
  show "\<exists>i<length (allMovies st). handleWatchlistAPI req fetch engine rnd =
             Some \<lparr>status = 200, body = MovieBody (Some (allMovies st ! i)) (length (allMovies st))\<rparr>"
    if "pageLoop 20 (scrapeStep engine (fetch u)) initialState 0 = Some (Inr st, k)" "allMovies st \<noteq> []"
    using randomPick_in_range[OF rnd that(2)] that q req
    by (auto simp: handleWatchlistAPI_def respondMovies_def)
  show "\<exists>i<length movies.
           handleWatchlistAPI2 req (IdResponded True (Some (c # cs))) (DataResponded True (Some movies))
             fetch engine rnd =
               Some \<lparr>status = 200, body = MovieBody (Some (movies ! i)) (length movies)\<rparr>"
    if "movies \<noteq> []"
    using randomPick_in_range[OF rnd that] that q req
    by (auto simp: handleWatchlistAPI2_def respondMovies_def)
qed

text \<open>
  Claim C7, on \<^verbatim>\<open>fallbackScrape\<close>: a request with \<^verbatim>\<open>random=true\<close> that the StremThru Worker
  serves by scraping is answered with the whole list, not with one movie. (The other paths
  answer with one movie of the list, see \<open>random_response_primary\<close>.)
\<close>

theorem fallback_ignores_random:
  "handleWatchlistAPI2
     \<lparr>req_method = ''GET'', q_username = Some ''u'', q_user = None, q_random = Some ''true''\<rparr>
     (IdResponded True None) (DataResponded False None)
     (\<lambda>u p. if p = 1 then Responded True (''data-film-slug='' @ [dq] @ ''dune'' @ [dq])
             else Responded False [])
     sampleEngine 0 =
   Some \<lparr>status = 200,
     body = MoviesBody [\<lparr>slug = ''dune'', title = ''dune'', year = Some [], poster = [],
       link = ''https://letterboxd.com/film/dune/''\<rparr>] 1\<rparr>"
  by code_simp










section \<open>The context window of a slug\<close>

lemma substring_window:
  assumes "i \<le> length s"
  shows "substring s (max 0 (int i - int n)) (min (int (length s)) (int i + int n)) = window n s i"
proof -
  let ?a = "max 0 (int i - int n)" and ?b = "min (int (length s)) (int i + int n)"
  have a: "nat ?a = i - n" by simp
  have b: "nat ?b = min (length s) (i + n)" by simp
  have ab: "?a \<le> ?b" using assms by simp
  have a0: "0 \<le> ?a" "?a \<le> int (length s)" using assms by simp_all
  have b0: "0 \<le> ?b" "?b \<le> int (length s)" by simp_all
  have "substring s ?a ?b = take (nat ?b - nat ?a) (drop (nat ?a) s)"
    unfolding substring_def Let_def using ab a0 b0 by (simp only: max_absorb1 min_absorb1 min_absorb2 max_absorb2)
  also have "\<dots> = take (min (length s) (i + n) - (i - n)) (drop (i - n) s)"
    by (simp only: a b)
  also have "\<dots> = drop (i - n) (take (min (length s) (i + n)) s)"
    by (simp add: drop_take)
  also have "take (min (length s) (i + n)) s = take (i + n) s"
    by (simp add: min_def)
  finally show ?thesis by (simp add: window_def)
qed

lemma exec_group_occurs:
  assumes "exec ic p html li = Some mt"
  shows "containsText html (m_group mt)"
proof -
  from assms have li: "li \<le> length html" and s: "search ic p (drop li html) li = Some mt"
    unfolding exec_def by (auto split: if_splits)
  from search_Some[OF s] obtain i g r rest where
    pm: "patMatch ic p (drop i (drop li html)) = (g, r) # rest" and g: "m_group mt = g" by blast
  from pm have "(g, r) \<in> set (patMatch ic p (drop i (drop li html)))" by simp
  from patMatch_sound[OF this] obtain u v where d: "drop i (drop li html) = u @ g @ v @ r" by blast
  have "html = take (li + i) html @ drop (li + i) html" by simp
  also have "drop (li + i) html = u @ g @ v @ r" using d by (simp add: add.commute)
  finally have "html = (take (li + i) html @ u) @ g @ (v @ r)" by simp
  then show ?thesis unfolding containsText_def g by blast
qed

lemma scans_groups_occur:
  "scans p html li ms \<Longrightarrow> \<forall>mt\<in>set ms. containsText html (m_group mt)"
  by (induction rule: scans.induct) (auto dest: exec_group_occurs)

lemma collectSlugs_occur:
  assumes "collectSlugs html = Some seen" "sl \<in> set seen"
  shows "\<exists>i. firstOccurrence html sl i"
proof -
  from collectSlugs_scans[of html] obtain ms1 ms2 ms3 where
    s: "scans slugPattern1 html 0 ms1" "scans slugPattern2 html 0 ms2" "scans slugPattern3 html 0 ms3"
    and c: "collectSlugs html = Some (foldl addSlug [] (map m_group (ms1 @ ms2 @ ms3)))" by blast
  from c assms have "sl \<in> m_group ` set (ms1 @ ms2 @ ms3)" by (auto simp: set_foldl_addSlug)
  with scans_groups_occur[OF s(1)] scans_groups_occur[OF s(2)] scans_groups_occur[OF s(3)]
  have "containsText html sl" by auto
  then obtain i where "occursAt html sl i" using occursAt_contains by blast
  from first_exists[OF this] show ?thesis by blast
qed

lemma collect_occur:
  assumes "[] \<notin> lang False (before p)" "collect p html 0 [] = Some seen" "sl \<in> set seen"
  shows "\<exists>i. firstOccurrence html sl i"
proof -
  from scans_total[OF assms(1)] obtain ms where s: "scans p html 0 ms" by blast
  from collect_scans[OF s, of "[]"] assms(2,3) have "sl \<in> m_group ` set ms"
    by (auto simp: set_foldl_addSlug)
  with scans_groups_occur[OF s] have "containsText html sl" by auto
  then obtain i where "occursAt html sl i" using occursAt_contains by blast
  from first_exists[OF this] show ?thesis by blast
qed

lemma firstOccurrence_le: "firstOccurrence s t i \<Longrightarrow> i \<le> length s"
  by (simp add: firstOccurrence_def occursAt_def)

lemma movieOf_window:
  assumes "firstOccurrence html sl i"
  shows "movieOf html sl = Some (movieFrom sl (window 1000 html i))"
proof -
  have "sectionOf html (int i) = window 1000 html i"
    using substring_window[OF firstOccurrence_le[OF assms], of 1000] by (simp add: sectionOf_def Let_def)
  then show ?thesis using indexOf_first[OF assms] by (simp add: movieOf_def Let_def)
qed

lemma filmSection_window:
  assumes "firstOccurrence html sl i"
  shows "filmSection html sl = window 500 html i"
  using substring_window[OF firstOccurrence_le[OF assms], of 500] indexOf_first[OF assms]
  by (simp add: filmSection_def)

lemma map_filter_all2:
  assumes "\<And>x. x \<in> set xs \<Longrightarrow> \<exists>y. f x = Some y \<and> P x y"
  shows "list_all2 P xs (List.map_filter f xs)"
  using assms
proof (induction xs)
  case Nil
  show ?case by (simp add: List.map_filter_def)
next
  case (Cons x xs)
  from Cons.prems[of x] obtain y where y: "f x = Some y" "P x y" by auto
  have "list_all2 P xs (List.map_filter f xs)" using Cons by simp
  with y show ?case by (simp add: List.map_filter_def)
qed

lemma worker_records:
  "\<exists>seen ms. collectSlugs html = Some seen \<and> parseMovies html = Some ms
      \<and> list_all2 (\<lambda>sl mv. \<exists>i. firstOccurrence html sl i
            \<and> mv = movieFrom sl (window 1000 html i)) seen ms"
proof -
  from collectSlugs_scans[of html] obtain seen where seen: "collectSlugs html = Some seen" by blast
  have "list_all2 (\<lambda>sl mv. \<exists>i. firstOccurrence html sl i \<and> mv = movieFrom sl (window 1000 html i))
     seen (List.map_filter (movieOf html) seen)"
  proof (rule map_filter_all2)
    fix sl assume "sl \<in> set seen"
    from collectSlugs_occur[OF seen this] obtain i where i: "firstOccurrence html sl i" by blast
    from movieOf_window[OF i] i
    show "\<exists>y. movieOf html sl = Some y \<and> (\<exists>i. firstOccurrence html sl i \<and> y = movieFrom sl (window 1000 html i))"
      by blast
  qed
  moreover have "parseMovies html = Some (List.map_filter (movieOf html) seen)"
    using seen by (simp add: parseMovies_def)
  ultimately show ?thesis using seen by blast
qed

lemma api_records:
  "\<exists>seen ms. collect slugPattern html 0 [] = Some seen \<and> parseMovies_api html = Some ms
      \<and> list_all2 (\<lambda>sl mv. \<exists>i. firstOccurrence html sl i
            \<and> mv = movieFrom_api sl (window 500 html i)) seen ms"
proof -
  from scans_total[OF slugPatterns_advance(4)] obtain ms where "scans slugPattern html 0 ms" by blast
  from collect_scans[OF this, of "[]"] obtain seen where seen: "collect slugPattern html 0 [] = Some seen"
    by blast
  have "list_all2 (\<lambda>sl mv. \<exists>i. firstOccurrence html sl i \<and> mv = movieFrom_api sl (window 500 html i))
     seen (map (\<lambda>sl. movieFrom_api sl (filmSection html sl)) seen)"
    unfolding list_all2_map2
  proof (rule list_all2_all_nthI[OF refl])
    fix n assume "n < length seen"
    then have "seen ! n \<in> set seen" by simp
    from collect_occur[OF slugPatterns_advance(4) seen this] obtain i where
      i: "firstOccurrence html (seen ! n) i" by blast
    with filmSection_window[OF i]
    show "\<exists>i. firstOccurrence html (seen ! n) i \<and>
        movieFrom_api (seen ! n) (filmSection html (seen ! n)) = movieFrom_api (seen ! n) (window 500 html i)"
      by auto
  qed
  moreover have "parseMovies_api html = Some (map (\<lambda>sl. movieFrom_api sl (filmSection html sl)) seen)"
    using seen by (simp add: parseMovies_api_def)
  ultimately show ?thesis using seen by blast
qed

text \<open>
  Claim C1, amended: every collected slug occurs in the page, so no slug is skipped, and the
  record of a slug is built from the slug and from the window around its first occurrence
  alone: 1000 characters to each side in the Workers, 500 in src/api/watchlist.js, clipped
  to the page.
\<close>

theorem context_window:
  "(\<exists>seen ms. collectSlugs html = Some seen \<and> parseMovies html = Some ms
      \<and> list_all2 (\<lambda>sl mv. \<exists>i. firstOccurrence html sl i
            \<and> mv = movieFrom sl (window 1000 html i)) seen ms)
   \<and> (\<exists>seen ms. collect slugPattern html 0 [] = Some seen \<and> parseMovies_api html = Some ms
      \<and> list_all2 (\<lambda>sl mv. \<exists>i. firstOccurrence html sl i
            \<and> mv = movieFrom_api sl (window 500 html i)) seen ms)"
  using worker_records[of html] api_records[of html] by blast

text \<open>
  Claim C1, witnessed on a page with one link: the slug \<^verbatim>\<open>heat\<close> first occurs at index 15,
  and its record is built from the window around that index.
\<close>

theorem context_window_witness:
  "collectSlugs (''<a href='' @ [dq] @ ''/film/heat/'' @ [dq] @ ''>'') = Some [''heat'']
   \<and> parseMovies (''<a href='' @ [dq] @ ''/film/heat/'' @ [dq] @ ''>'') =
       Some [movieFrom ''heat'' (window 1000 (''<a href='' @ [dq] @ ''/film/heat/'' @ [dq] @ ''>'') 15)]
   \<and> firstOccurrence (''<a href='' @ [dq] @ ''/film/heat/'' @ [dq] @ ''>'') ''heat'' 15"
proof -
  have c: "collectSlugs (''<a href='' @ [dq] @ ''/film/heat/'' @ [dq] @ ''>'') = Some [''heat'']"
    by code_simp
  have i: "indexOf (''<a href='' @ [dq] @ ''/film/heat/'' @ [dq] @ ''>'') ''heat'' = 15"
    by code_simp
  from context_window[of "''<a href='' @ [dq] @ ''/film/heat/'' @ [dq] @ ''>''"] obtain ms where
    ms: "parseMovies (''<a href='' @ [dq] @ ''/film/heat/'' @ [dq] @ ''>'') = Some ms"
    and l: "list_all2 (\<lambda>sl mv. \<exists>i. firstOccurrence (''<a href='' @ [dq] @ ''/film/heat/'' @ [dq] @ ''>'') sl i
            \<and> mv = movieFrom sl (window 1000 (''<a href='' @ [dq] @ ''/film/heat/'' @ [dq] @ ''>'') i)) [''heat''] ms"
    unfolding c by auto
  from l obtain mv j where mv: "ms = [mv]"
    and j: "firstOccurrence (''<a href='' @ [dq] @ ''/film/heat/'' @ [dq] @ ''>'') ''heat'' j"
    "mv = movieFrom ''heat'' (window 1000 (''<a href='' @ [dq] @ ''/film/heat/'' @ [dq] @ ''>'') j)"
    by (auto simp: list_all2_Cons1)
  from indexOf_first[OF j(1)] i have "j = 15" by simp
  with c ms mv j show ?thesis by simp
qed

lemma search_spaces: "search False slugPattern (replicate n (CHR '' '')) k = None"
  by (induction n arbitrary: k) (simp_all add: patMatch_def slugPattern_def canon_def)

lemma exec_spaces_first: "exec False slugPattern (''data-film-slug='' @ [dq] @ ''q'' @ [dq] @ replicate 600 (CHR '' '')) 0
  = Some \<lparr>m_index = 0, m_text = ''data-film-slug='' @ [dq] @ ''q'' @ [dq], m_group = ''q'', m_end = 18\<rparr>"
  by (simp add: exec_def patMatch_def slugPattern_def Plus_def notQuote_def rxMatch_Star canon_def dq_def)

lemma exec_spaces_rest: "exec False slugPattern (''data-film-slug='' @ [dq] @ ''q'' @ [dq] @ replicate 600 (CHR '' '')) 18
  = None"
  by (simp add: exec_def search_spaces)

lemma collect_spaces: "collect slugPattern (''data-film-slug='' @ [dq] @ ''q'' @ [dq] @ replicate 600 (CHR '' '')) 0 [] = Some [''q'']"
  by (subst collect.simps, simp only: exec_spaces_first option.case jsmatch.select_convs, subst collect.simps,
      simp only: exec_spaces_rest option.case) (simp add: addSlug_def)

text \<open>
  Claim C1 as stated fails on src/api/watchlist.js: on a page of 618 characters whose slug
  \<^verbatim>\<open>q\<close> first occurs at index 16, the context is 516 characters long, not the 618 that
  1000 characters to each side give.
\<close>

theorem api_window_is_500:
  "parseMovies_api (''data-film-slug='' @ [dq] @ ''q'' @ [dq] @ replicate 600 (CHR '' ''))
     = Some [movieFrom_api ''q''
         (filmSection (''data-film-slug='' @ [dq] @ ''q'' @ [dq] @ replicate 600 (CHR '' '')) ''q'')]
   \<and> indexOf (''data-film-slug='' @ [dq] @ ''q'' @ [dq] @ replicate 600 (CHR '' '')) ''q'' = 16
   \<and> length (filmSection (''data-film-slug='' @ [dq] @ ''q'' @ [dq] @ replicate 600 (CHR '' '')) ''q'') = 516
   \<and> length (window 1000 (''data-film-slug='' @ [dq] @ ''q'' @ [dq] @ replicate 600 (CHR '' '')) 16) = 618"
proof -
  have i: "indexOf (''data-film-slug='' @ [dq] @ ''q'' @ [dq] @ replicate 600 (CHR '' '')) ''q'' = 16"
    by (simp add: indexOf_def dq_def)
  have p: "parseMovies_api (''data-film-slug='' @ [dq] @ ''q'' @ [dq] @ replicate 600 (CHR '' ''))
     = Some [movieFrom_api ''q''
         (filmSection (''data-film-slug='' @ [dq] @ ''q'' @ [dq] @ replicate 600 (CHR '' '')) ''q'')]"
    unfolding parseMovies_api_def by (simp only: collect_spaces) simp
  have f: "length (filmSection (''data-film-slug='' @ [dq] @ ''q'' @ [dq] @ replicate 600 (CHR '' '')) ''q'') = 516"
    unfolding filmSection_def by (simp only: i) (simp add: substring_def)
  have w: "length (window 1000 (''data-film-slug='' @ [dq] @ ''q'' @ [dq] @ replicate 600 (CHR '' '')) 16) = 618"
    by (simp add: window_def)
  from i p f w show ?thesis by blast
qed

section \<open>The title and the year\<close>

lemma firstAt_unique:
  assumes uniq: "\<And>t v w. A t v \<Longrightarrow> A t w \<Longrightarrow> v = w"
    and "firstAt A s v" "firstAt A s w"
  shows "v = w"
proof -
  from assms(2) obtain i where i: "A (drop i s) v" "\<forall>j<i. \<forall>w. \<not> A (drop j s) w"
    unfolding firstAt_def by blast
  from assms(3) obtain k where k: "A (drop k s) w" "\<forall>j<k. \<forall>w. \<not> A (drop j s) w"
    unfolding firstAt_def by blast
  have "i = k" using i k by (meson linorder_neqE_nat)
  with i k uniq show ?thesis by blast
qed

lemma firstAt_not_nowhere: "firstAt A s v \<Longrightarrow> \<not> nowhere A s"
  unfolding firstAt_def nowhere_def by blast

lemma strMatch_Some_first:
  assumes iff: "\<And>t v. (\<exists>r. (v, r) \<in> set (patMatch ic p t)) \<longleftrightarrow> A t v"
    and m: "strMatch ic p s = Some mt"
  shows "firstAt A s (m_group mt)"
proof -
  from search_Some[OF m[unfolded strMatch_def]] obtain i g r rest where
    none: "\<forall>j<i. patMatch ic p (drop j s) = []" and pm: "patMatch ic p (drop i s) = (g, r) # rest"
    and g: "m_group mt = g" by blast
  from pm have "(g, r) \<in> set (patMatch ic p (drop i s))" by simp
  then have "A (drop i s) g" using iff by blast
  moreover have "\<forall>j<i. \<forall>w. \<not> A (drop j s) w"
  proof (intro allI impI)
    fix j w assume "j < i"
    with none have "patMatch ic p (drop j s) = []" by blast
    then show "\<not> A (drop j s) w" using iff[of w "drop j s"] by auto
  qed
  ultimately show ?thesis unfolding firstAt_def g by blast
qed

lemma strMatch_None_nowhere:
  assumes iff: "\<And>t v. (\<exists>r. (v, r) \<in> set (patMatch ic p t)) \<longleftrightarrow> A t v"
  shows "strMatch ic p s = None \<longleftrightarrow> nowhere A s"
proof
  assume "strMatch ic p s = None"
  then have n: "\<forall>i\<le>length s. patMatch ic p (drop i s) = []"
    unfolding strMatch_def search_None by blast
  show "nowhere A s"
    unfolding nowhere_def
  proof (intro allI)
    fix i w
    have "patMatch ic p (drop i s) = []"
    proof (cases "i \<le> length s")
      case True
      with n show ?thesis by blast
    next
      case False
      then have "drop i s = drop (length s) s" by simp
      with n show ?thesis by (metis order_refl)
    qed
    then show "\<not> A (drop i s) w" using iff[of w "drop i s"] by auto
  qed
next
  assume n: "nowhere A s"
  have "\<forall>i\<le>length s. patMatch ic p (drop i s) = []"
  proof (intro allI impI)
    fix i
    show "patMatch ic p (drop i s) = []"
    proof (cases "patMatch ic p (drop i s)")
      case Nil
      then show ?thesis .
    next
      case (Cons a list)
      obtain g r where "a = (g, r)" by (cases a)
      with Cons have "(g, r) \<in> set (patMatch ic p (drop i s))" by simp
      then have "A (drop i s) g" using iff by blast
      with n show ?thesis unfolding nowhere_def by blast
    qed
  qed
  then show "strMatch ic p s = None" unfolding strMatch_def search_None by blast
qed

lemma strMatch_first_Some:
  assumes iff: "\<And>t v. (\<exists>r. (v, r) \<in> set (patMatch ic p t)) \<longleftrightarrow> A t v"
    and uniq: "\<And>t v w. A t v \<Longrightarrow> A t w \<Longrightarrow> v = w"
    and f: "firstAt A s v"
  shows "\<exists>mt. strMatch ic p s = Some mt \<and> m_group mt = v"
proof (cases "strMatch ic p s")
  case None
  with strMatch_None_nowhere[of ic p A s, OF iff] firstAt_not_nowhere[OF f] show ?thesis by blast
next
  case (Some mt)
  from strMatch_Some_first[of ic p A s mt, OF iff Some] have g: "firstAt A s (m_group mt)" .
  have "m_group mt = v"
  proof (rule firstAt_unique[where A = A and s = s])
    show "firstAt A s (m_group mt)" by (rule g)
    show "firstAt A s v" by (rule f)
    show "\<And>t v w. A t v \<Longrightarrow> A t w \<Longrightarrow> v = w" by (rule uniq)
  qed
  with Some show ?thesis by blast
qed

lemma canon_False: "canon False = (\<lambda>c. c)"
  by (rule ext) (simp add: canon_def)

lemma lang_Lit_False: "lang False (Lit l) = {l}"
  by (simp add: canon_False)

lemma lang_Seq_Lit: "lang False (Seq (Lit l) b) = (\<lambda>v. l @ v) ` lang False b"
  unfolding lang.simps(4) lang_Lit_False by auto

lemma lang_Alt_Lit: "lang False (Alt (Lit l) (Lit l')) = {l, l'}"
  unfolding lang.simps(5) lang_Lit_False by auto

lemma star_chars: "star {[c] | c. P c} = {w. \<forall>c\<in>set w. P c}"
proof (intro set_eqI iffI)
  fix w assume "w \<in> star {[c] | c. P c}"
  then show "w \<in> {w. \<forall>c\<in>set w. P c}" by (induction rule: star.induct) auto
next
  fix w assume "w \<in> {w. \<forall>c\<in>set w. P c}"
  then show "w \<in> star {[c] | c. P c}"
  proof (induction w)
    case Nil
    show ?case by (rule star_nil)
  next
    case (Cons c w)
    then have "[c] \<in> {[c] | c. P c}" "w \<in> star {[c] | c. P c}" by auto
    from star_app[OF this] show ?case by simp
  qed
qed

lemma lang_Plus_notQuote: "lang False (Plus notQuote) = {g. g \<noteq> [] \<and> dq \<notin> set g}"
proof -
  have 1: "lang False notQuote = {[c] | c. c \<noteq> dq}" by (simp add: notQuote_def canon_False)
  have "lang False (Plus notQuote) = {u @ v | u v. u \<in> {[c] | c. c \<noteq> dq} \<and> v \<in> {w. \<forall>c\<in>set w. c \<noteq> dq}}"
    unfolding Plus_def lang.simps 1 star_chars ..
  also have "\<dots> = {g. g \<noteq> [] \<and> dq \<notin> set g}"
  proof (intro set_eqI iffI)
    fix g assume "g \<in> {u @ v | u v. u \<in> {[c] | c. c \<noteq> dq} \<and> v \<in> {w. \<forall>c\<in>set w. c \<noteq> dq}}"
    then show "g \<in> {g. g \<noteq> [] \<and> dq \<notin> set g}" by auto
  next
    fix g assume "g \<in> {g. g \<noteq> [] \<and> dq \<notin> set g}"
    then obtain c w where "g = [c] @ w" "c \<noteq> dq" "\<forall>c\<in>set w. c \<noteq> dq" by (cases g) auto
    then show "g \<in> {u @ v | u v. u \<in> {[c] | c. c \<noteq> dq} \<and> v \<in> {w. \<forall>c\<in>set w. c \<noteq> dq}}" by blast
  qed
  finally show ?thesis .
qed

lemma split_at_quote:
  assumes "dq \<notin> set v" "dq \<notin> set w" "v @ dq # a = w @ dq # b"
  shows "v = w"
proof -
  have tw: "dq \<notin> set x \<Longrightarrow> takeWhile (\<lambda>c. c \<noteq> dq) (x @ dq # y) = x" for x y
    by (induction x) auto
  have "takeWhile (\<lambda>c. c \<noteq> dq) (v @ dq # a) = v" using assms(1) by (rule tw)
  moreover have "takeWhile (\<lambda>c. c \<noteq> dq) (w @ dq # b) = w" using assms(2) by (rule tw)
  ultimately show ?thesis using assms(3) by simp
qed

lemma attr_patMatch:
  assumes B: "lang False (before p) = (\<lambda>n. n @ ''='' @ [dq]) ` set names"
    and G: "group1 p = Plus notQuote" and A: "after p = Lit [dq]"
  shows "(\<exists>r. (v, r) \<in> set (patMatch False p t)) \<longleftrightarrow> attrHere names t v"
proof
  assume "\<exists>r. (v, r) \<in> set (patMatch False p t)"
  then obtain r where "(v, r) \<in> set (patMatch False p t)" by blast
  from patMatch_sound[OF this] obtain u w where t: "t = u @ v @ w @ r"
    and u: "u \<in> lang False (before p)" and v: "v \<in> lang False (group1 p)"
    and w: "w \<in> lang False (after p)" by blast
  from u B obtain n where n: "n \<in> set names" "u = n @ ''='' @ [dq]" by auto
  from v G have v': "v \<noteq> []" "dq \<notin> set v" by (simp_all add: lang_Plus_notQuote)
  from w A have "w = [dq]" by (simp only: lang_Lit_False) simp
  with t n have "t = n @ ''='' @ [dq] @ v @ [dq] @ r" by simp
  with n v' show "attrHere names t v" unfolding attrHere_def by blast
next
  assume "attrHere names t v"
  then obtain n rest where n: "n \<in> set names" and t: "t = n @ ''='' @ [dq] @ v @ [dq] @ rest"
    and v: "v \<noteq> []" "dq \<notin> set v" unfolding attrHere_def by blast
  have 1: "n @ ''='' @ [dq] \<in> lang False (before p)" using B n by blast
  have 2: "v \<in> lang False (group1 p)" using G v by (simp add: lang_Plus_notQuote)
  have 3: "[dq] \<in> lang False (after p)" unfolding A lang_Lit_False by simp
  from patMatch_complete[OF 1 2 3, of rest] t show "\<exists>r. (v, r) \<in> set (patMatch False p t)"
    by auto
qed

lemma attrHere_unique:
  assumes len: "\<And>n n'. n \<in> set names \<Longrightarrow> n' \<in> set names \<Longrightarrow> length n = length n'"
    and "attrHere names t v" "attrHere names t w"
  shows "v = w"
proof -
  from assms(2) obtain n a where n: "n \<in> set names" "t = n @ ''='' @ [dq] @ v @ [dq] @ a"
    "dq \<notin> set v" unfolding attrHere_def by blast
  from assms(3) obtain n' b where n': "n' \<in> set names" "t = n' @ ''='' @ [dq] @ w @ [dq] @ b"
    "dq \<notin> set w" unfolding attrHere_def by blast
  from n(2) n'(2) len[OF n(1) n'(1)] have "v @ dq # a = w @ dq # b" by simp
  from split_at_quote[OF n(3) n'(3) this] show ?thesis .
qed

lemma namePattern_lang:
  "lang False (before namePattern) = (\<lambda>n. n @ ''='' @ [dq]) ` set nameAttrs"
  unfolding namePattern_def pattern.select_convs lang.simps(4) lang_Alt_Lit lang_Lit_False nameAttrs_def
  by auto

lemma altPattern_lang:
  "lang False (before altPattern) = (\<lambda>n. n @ ''='' @ [dq]) ` set altAttrs"
  unfolding altPattern_def pattern.select_convs lang_Lit_False altAttrs_def
  by simp

lemma name_iff: "(\<exists>r. (v, r) \<in> set (patMatch False namePattern t)) \<longleftrightarrow> attrHere nameAttrs t v"
  by (rule attr_patMatch[OF namePattern_lang]) (simp_all add: namePattern_def)

lemma alt_iff: "(\<exists>r. (v, r) \<in> set (patMatch False altPattern t)) \<longleftrightarrow> attrHere altAttrs t v"
  by (rule attr_patMatch[OF altPattern_lang]) (simp_all add: altPattern_def)

lemma name_unique: "attrHere nameAttrs t v \<Longrightarrow> attrHere nameAttrs t w \<Longrightarrow> v = w"
  by (rule attrHere_unique[of nameAttrs]) (auto simp: nameAttrs_def)

lemma alt_unique: "attrHere altAttrs t v \<Longrightarrow> attrHere altAttrs t w \<Longrightarrow> v = w"
  by (rule attrHere_unique[of altAttrs]) (auto simp: altAttrs_def)

lemma m_text_contains_group:
  assumes "strMatch ic p s = Some mt"
  shows "containsText (m_text mt) (m_group mt)"
proof -
  from search_Some[OF assms[unfolded strMatch_def]] obtain i g r rest where
    pm: "patMatch ic p (drop i s) = (g, r) # rest" and g: "m_group mt = g"
    and t: "m_text mt = take (length s - i - length r) (drop i s)" by blast
  from pm have "(g, r) \<in> set (patMatch ic p (drop i s))" by simp
  from patMatch_sound[OF this] obtain u v where d: "drop i s = u @ g @ v @ r" by blast
  have "length (drop i s) = length u + length g + length v + length r" unfolding d by simp
  then have "length s - i - length r = length (u @ g @ v)" by simp
  then have "m_text mt = u @ g @ v" unfolding t d by simp
  then show ?thesis unfolding containsText_def g by blast
qed

lemma name_first:
  assumes "firstAt (attrHere nameAttrs) s v"
  shows "\<exists>mt. strMatch False namePattern s = Some mt \<and> m_group mt = v"
proof (rule strMatch_first_Some[where A = "attrHere nameAttrs"])
  show "(\<exists>r. (v, r) \<in> set (patMatch False namePattern t)) \<longleftrightarrow> attrHere nameAttrs t v" for t v
    by (rule name_iff)
  show "attrHere nameAttrs t v \<Longrightarrow> attrHere nameAttrs t w \<Longrightarrow> v = w" for t v w
    by (rule name_unique)
  show "firstAt (attrHere nameAttrs) s v" by (rule assms)
qed

lemma alt_first:
  assumes "firstAt (attrHere altAttrs) s v"
  shows "\<exists>mt. strMatch False altPattern s = Some mt \<and> m_group mt = v"
proof (rule strMatch_first_Some[where A = "attrHere altAttrs"])
  show "(\<exists>r. (v, r) \<in> set (patMatch False altPattern t)) \<longleftrightarrow> attrHere altAttrs t v" for t v
    by (rule alt_iff)
  show "attrHere altAttrs t v \<Longrightarrow> attrHere altAttrs t w \<Longrightarrow> v = w" for t v w
    by (rule alt_unique)
  show "firstAt (attrHere altAttrs) s v" by (rule assms)
qed

lemma name_none: "strMatch False namePattern s = None \<longleftrightarrow> nowhere (attrHere nameAttrs) s"
  by (rule strMatch_None_nowhere) (rule name_iff)

lemma alt_none: "strMatch False altPattern s = None \<longleftrightarrow> nowhere (attrHere altAttrs) s"
  by (rule strMatch_None_nowhere) (rule alt_iff)

text \<open>
  Claim C3, amended. In the Workers the title is the value of the first name attribute of
  the window; without a name attribute it is the value of the first \<^verbatim>\<open>alt\<close> attribute if
  that value is longer than one character; otherwise it is the slug with its hyphens turned
  into spaces. In src/api/watchlist.js the first and the last case are the same, and without
  a name attribute the first \<^verbatim>\<open>alt\<close> attribute gives the title whatever the length of its
  value, the title containing that value.
\<close>

theorem title_priority:
  "(firstAt (attrHere nameAttrs) section v \<longrightarrow>
      nameOf sl section = v \<and> nameOf_api sl section = v)
   \<and> (nowhere (attrHere nameAttrs) section \<and> firstAt (attrHere altAttrs) section v \<and> 1 < length v \<longrightarrow>
      nameOf sl section = v)
   \<and> (nowhere (attrHere nameAttrs) section \<and> firstAt (attrHere altAttrs) section v \<and> length v \<le> 1 \<longrightarrow>
      nameOf sl section = dashesToSpaces sl)
   \<and> (nowhere (attrHere nameAttrs) section \<and> firstAt (attrHere altAttrs) section v \<longrightarrow>
      containsText (nameOf_api sl section) v)
   \<and> (nowhere (attrHere nameAttrs) section \<and> nowhere (attrHere altAttrs) section \<longrightarrow>
      nameOf sl section = dashesToSpaces sl \<and> nameOf_api sl section = dashesToSpaces sl)
   \<and> title (movieFrom sl section) = nameOf sl section
   \<and> title (movieFrom_api sl section) = nameOf_api sl section"
proof (intro conjI impI)
  assume "firstAt (attrHere nameAttrs) section v"
  from name_first[OF this]
  obtain mt where mt: "strMatch False namePattern section = Some mt" "m_group mt = v" by blast
  then show "nameOf sl section = v" "nameOf_api sl section = v"
    by (simp_all add: nameOf_def nameOf_api_def)
next
  assume a: "nowhere (attrHere nameAttrs) section \<and> firstAt (attrHere altAttrs) section v \<and> 1 < length v"
  then have n: "strMatch False namePattern section = None" by (simp add: name_none)
  from a alt_first
  obtain mt where mt: "strMatch False altPattern section = Some mt" "m_group mt = v" by blast
  with n a show "nameOf sl section = v" by (simp add: nameOf_def)
next
  assume a: "nowhere (attrHere nameAttrs) section \<and> firstAt (attrHere altAttrs) section v \<and> length v \<le> 1"
  then have n: "strMatch False namePattern section = None" by (simp add: name_none)
  from a alt_first
  obtain mt where mt: "strMatch False altPattern section = Some mt" "m_group mt = v" by blast
  with n a show "nameOf sl section = dashesToSpaces sl" by (simp add: nameOf_def)
next
  assume a: "nowhere (attrHere nameAttrs) section \<and> firstAt (attrHere altAttrs) section v"
  then have n: "strMatch False namePattern section = None" by (simp add: name_none)
  from a alt_first
  obtain mt where mt: "strMatch False altPattern section = Some mt" "m_group mt = v" by blast
  from m_text_contains_group[OF mt(1)] mt n show "containsText (nameOf_api sl section) v"
    by (simp add: nameOf_api_def)
next
  assume a: "nowhere (attrHere nameAttrs) section \<and> nowhere (attrHere altAttrs) section"
  then have "strMatch False namePattern section = None" "strMatch False altPattern section = None"
    by (simp_all add: name_none alt_none)
  then show "nameOf sl section = dashesToSpaces sl" "nameOf_api sl section = dashesToSpaces sl"
    by (simp_all add: nameOf_def nameOf_api_def)
next
  show "title (movieFrom sl section) = nameOf sl section" by (simp add: movieFrom_def Let_def)
  show "title (movieFrom_api sl section) = nameOf_api sl section" by (simp add: movieFrom_api_def)
qed

lemma name_Some_first:
  "strMatch False namePattern s = Some mt \<Longrightarrow> firstAt (attrHere nameAttrs) s (m_group mt)"
  by (rule strMatch_Some_first[where A = "attrHere nameAttrs"]) (rule name_iff)

lemma alt_Some_first:
  "strMatch False altPattern s = Some mt \<Longrightarrow> firstAt (attrHere altAttrs) s (m_group mt)"
  by (rule strMatch_Some_first[where A = "attrHere altAttrs"]) (rule alt_iff)

text \<open>
  Claim C3, witnessed on four windows: an \<^verbatim>\<open>alt\<close> value of four characters, one of a single
  character, a name attribute before an \<^verbatim>\<open>alt\<close> attribute, and neither.
\<close>

theorem title_priority_witness:
  "nameOf ''heat'' (''<img alt='' @ [dq] @ ''Heat'' @ [dq] @ ''>'') = ''Heat''
   \<and> nameOf ''dune-2'' (''<img alt='' @ [dq] @ ''D'' @ [dq] @ ''>'') = ''dune 2''
   \<and> nameOf ''up'' (''<li data-film-name='' @ [dq] @ ''Up'' @ [dq] @ ''><img alt='' @ [dq] @ ''Poster'' @ [dq] @ ''>'') = ''Up''
   \<and> nameOf ''the-thing'' ''<li>'' = ''the thing''"
proof -
  have n1: "nowhere (attrHere nameAttrs) (''<img alt='' @ [dq] @ ''Heat'' @ [dq] @ ''>'')"
    unfolding name_none[symmetric] by code_simp
  have "strMatch False altPattern (''<img alt='' @ [dq] @ ''Heat'' @ [dq] @ ''>'') =
      Some \<lparr>m_index = 5, m_text = ''alt='' @ [dq] @ ''Heat'' @ [dq], m_group = ''Heat'', m_end = 15\<rparr>"
    by code_simp
  from alt_Some_first[OF this]
  have a1: "firstAt (attrHere altAttrs) (''<img alt='' @ [dq] @ ''Heat'' @ [dq] @ ''>'') ''Heat''" by simp
  have n2: "nowhere (attrHere nameAttrs) (''<img alt='' @ [dq] @ ''D'' @ [dq] @ ''>'')"
    unfolding name_none[symmetric] by code_simp
  have "strMatch False altPattern (''<img alt='' @ [dq] @ ''D'' @ [dq] @ ''>'') =
      Some \<lparr>m_index = 5, m_text = ''alt='' @ [dq] @ ''D'' @ [dq], m_group = ''D'', m_end = 12\<rparr>"
    by code_simp
  from alt_Some_first[OF this]
  have a2: "firstAt (attrHere altAttrs) (''<img alt='' @ [dq] @ ''D'' @ [dq] @ ''>'') ''D''" by simp
  have "strMatch False namePattern (''<li data-film-name='' @ [dq] @ ''Up'' @ [dq] @ ''><img alt='' @ [dq] @ ''Poster'' @ [dq] @ ''>'') =
      Some \<lparr>m_index = 4, m_text = ''data-film-name='' @ [dq] @ ''Up'' @ [dq], m_group = ''Up'', m_end = 23\<rparr>"
    by code_simp
  from name_Some_first[OF this]
  have f3: "firstAt (attrHere nameAttrs) (''<li data-film-name='' @ [dq] @ ''Up'' @ [dq] @ ''><img alt='' @ [dq] @ ''Poster'' @ [dq] @ ''>'') ''Up''"
    by simp
  have n4: "nowhere (attrHere nameAttrs) ''<li>''" unfolding name_none[symmetric] by code_simp
  have a4: "nowhere (attrHere altAttrs) ''<li>''" unfolding alt_none[symmetric] by code_simp
  have d: "dashesToSpaces ''dune-2'' = ''dune 2''" "dashesToSpaces ''the-thing'' = ''the thing''"
    by (simp_all add: dashesToSpaces_def)
  from title_priority[of "''<img alt='' @ [dq] @ ''Heat'' @ [dq] @ ''>''" "''Heat''" "''heat''"]
    title_priority[of "''<img alt='' @ [dq] @ ''D'' @ [dq] @ ''>''" "''D''" "''dune-2''"]
    title_priority[of "''<li data-film-name='' @ [dq] @ ''Up'' @ [dq] @ ''><img alt='' @ [dq] @ ''Poster'' @ [dq] @ ''>''" "''Up''" "''up''"]
    title_priority[of "''<li>''" "[]" "''the-thing''"]
    n1 a1 n2 a2 f3 n4 a4 d
  show ?thesis by simp
qed

text \<open>
  Claim C3 as stated fails on src/api/watchlist.js: with an \<^verbatim>\<open>alt\<close> value of one character
  and no name attribute, its title is taken from the \<^verbatim>\<open>alt\<close> match, where the Workers derive
  it from the slug.
\<close>

theorem api_title_from_short_alt:
  "parseMovies_api (''<img alt='' @ [dq] @ ''D'' @ [dq] @ '' data-film-slug='' @ [dq] @ ''dune-2'' @ [dq] @ ''>'') =
     Some [\<lparr>slug = ''dune-2'', title = ''alt='' @ [dq] @ ''D'' @ [dq], year = None, poster = [],
       link = ''https://letterboxd.com/film/dune-2/''\<rparr>]
   \<and> parseMovies (''<img alt='' @ [dq] @ ''D'' @ [dq] @ '' data-film-slug='' @ [dq] @ ''dune-2'' @ [dq] @ ''>'') =
     Some [\<lparr>slug = ''dune-2'', title = ''dune 2'', year = Some [], poster = [],
       link = ''https://letterboxd.com/film/dune-2/''\<rparr>]"
  by code_simp

lemma Times_4: "Times 4 Digit = Seq Digit (Seq Digit (Seq Digit Digit))"
  by (simp add: eval_nat_numeral)

lemma lang_four_digits: "lang False (Times 4 Digit) = {v. length v = 4 \<and> (\<forall>c\<in>set v. isDigit c)}"
proof (intro set_eqI iffI)
  fix v assume "v \<in> lang False (Times 4 Digit)"
  then show "v \<in> {v. length v = 4 \<and> (\<forall>c\<in>set v. isDigit c)}" unfolding Times_4 by auto
next
  fix v assume "v \<in> {v. length v = 4 \<and> (\<forall>c\<in>set v. isDigit c)}"
  then have l: "length v = Suc (Suc (Suc (Suc 0)))" and d: "\<forall>c\<in>set v. isDigit c" by simp_all
  from l obtain a b c e where "v = [a, b, c, e]" by (auto simp: length_Suc_conv)
  with d have "v = [a] @ [b] @ [c] @ [e]" "isDigit a" "isDigit b" "isDigit c" "isDigit e" by simp_all
  then show "v \<in> lang False (Times 4 Digit)" unfolding Times_4 lang.simps by blast
qed

lemma year_iff: "(\<exists>r. (v, r) \<in> set (patMatch False yearPattern t)) \<longleftrightarrow> yearHere t v"
proof
  assume "\<exists>r. (v, r) \<in> set (patMatch False yearPattern t)"
  then obtain r where "(v, r) \<in> set (patMatch False yearPattern t)" by blast
  from patMatch_sound[OF this] obtain u w where t: "t = u @ v @ w @ r"
    and u: "u \<in> lang False (before yearPattern)" and v: "v \<in> lang False (group1 yearPattern)"
    and w: "w \<in> lang False (after yearPattern)" by blast
  from u have u': "u = ''(''" unfolding yearPattern_def pattern.select_convs lang_Lit_False by simp
  from w have w': "w = '')''" unfolding yearPattern_def pattern.select_convs lang_Lit_False by simp
  from v have "length v = 4 \<and> (\<forall>c\<in>set v. isDigit c)"
    unfolding yearPattern_def pattern.select_convs lang_four_digits by simp
  with t u' w' show "yearHere t v" unfolding yearHere_def by blast
next
  assume "yearHere t v"
  then obtain rest where t: "t = ''('' @ v @ '')'' @ rest" and v: "length v = 4" "\<forall>c\<in>set v. isDigit c"
    unfolding yearHere_def by blast
  have 1: "''('' \<in> lang False (before yearPattern)"
    unfolding yearPattern_def pattern.select_convs lang_Lit_False by simp
  have 2: "v \<in> lang False (group1 yearPattern)"
    unfolding yearPattern_def pattern.select_convs lang_four_digits using v by simp
  have 3: "'')'' \<in> lang False (after yearPattern)"
    unfolding yearPattern_def pattern.select_convs lang_Lit_False by simp
  from patMatch_complete[OF 1 2 3, of rest] t show "\<exists>r. (v, r) \<in> set (patMatch False yearPattern t)"
    by blast
qed

lemma year_unique: "yearHere t v \<Longrightarrow> yearHere t w \<Longrightarrow> v = w"
  unfolding yearHere_def by auto

lemma year_first:
  assumes "firstAt yearHere s v"
  shows "\<exists>mt. strMatch False yearPattern s = Some mt \<and> m_group mt = v"
proof (rule strMatch_first_Some[where A = yearHere])
  show "(\<exists>r. (v, r) \<in> set (patMatch False yearPattern t)) \<longleftrightarrow> yearHere t v" for t v
    by (rule year_iff)
  show "yearHere t v \<Longrightarrow> yearHere t w \<Longrightarrow> v = w" for t v w
    by (rule year_unique)
  show "firstAt yearHere s v" by (rule assms)
qed

lemma year_none: "strMatch False yearPattern s = None \<longleftrightarrow> nowhere yearHere s"
  by (rule strMatch_None_nowhere) (rule year_iff)

lemma year_Some_first:
  "strMatch False yearPattern s = Some mt \<Longrightarrow> firstAt yearHere s (m_group mt)"
  by (rule strMatch_Some_first[where A = yearHere]) (rule year_iff)

lemma movieOf_record:
  "mv \<in> set (List.map_filter (movieOf html) seen) \<Longrightarrow> \<exists>sl section. mv = movieFrom sl section"
  by (auto simp: List.map_filter_def movieOf_def Let_def split: if_splits)

text \<open>
  Claim C4, amended: the \<^verbatim>\<open>year\<close> of a record of the Workers is the four digits of the first
  parenthesised year of its title, and the empty string when the title has none; a record
  of src/api/watchlist.js has no \<^verbatim>\<open>year\<close>.
\<close>

theorem year_of_title:
  "(firstAt yearHere name v \<longrightarrow> yearOf name = v)
   \<and> (nowhere yearHere name \<longrightarrow> yearOf name = [])
   \<and> (parseMovies html = Some ms \<and> mv \<in> set ms \<longrightarrow> year mv = Some (yearOf (title mv)))
   \<and> (parseMovies_api html = Some ms \<and> mv \<in> set ms \<longrightarrow> year mv = None)"
proof (intro conjI impI)
  assume "firstAt yearHere name v"
  from year_first[OF this] show "yearOf name = v" by (auto simp: yearOf_def)
next
  assume "nowhere yearHere name"
  then show "yearOf name = []" by (simp add: yearOf_def year_none[symmetric])
next
  assume "parseMovies html = Some ms \<and> mv \<in> set ms"
  then obtain seen where "mv \<in> set (List.map_filter (movieOf html) seen)"
    unfolding parseMovies_def by (auto split: bind_splits)
  from movieOf_record[OF this] show "year mv = Some (yearOf (title mv))"
    by (auto simp: movieFrom_def Let_def)
next
  assume "parseMovies_api html = Some ms \<and> mv \<in> set ms"
  then show "year mv = None"
    unfolding parseMovies_api_def by (auto simp: movieFrom_api_def split: bind_splits)
qed

text \<open>Claim C4, witnessed on the title of the specification and on two more.\<close>

theorem year_of_title_witness:
  "yearOf ''Dune (2021)'' = ''2021'' \<and> yearOf ''Dune (Part Two)'' = []
   \<and> yearOf ''(12345) 1999 (1984) (2001)'' = ''1984''"
proof -
  have "strMatch False yearPattern ''Dune (2021)'' =
      Some \<lparr>m_index = 5, m_text = ''(2021)'', m_group = ''2021'', m_end = 11\<rparr>" by code_simp
  from year_Some_first[OF this] have 1: "firstAt yearHere ''Dune (2021)'' ''2021''" by simp
  have 2: "nowhere yearHere ''Dune (Part Two)''" unfolding year_none[symmetric] by code_simp
  have "strMatch False yearPattern ''(12345) 1999 (1984) (2001)'' =
      Some \<lparr>m_index = 13, m_text = ''(1984)'', m_group = ''1984'', m_end = 19\<rparr>" by code_simp
  from year_Some_first[OF this] have 3: "firstAt yearHere ''(12345) 1999 (1984) (2001)'' ''1984''" by simp
  from year_of_title[of "''Dune (2021)''" "''2021''"] year_of_title[of "''Dune (Part Two)''"]
    year_of_title[of "''(12345) 1999 (1984) (2001)''" "''1984''"] 1 2 3
  show ?thesis by simp
qed

text \<open>
  Claim C4 as stated fails on src/api/watchlist.js: the record of a film whose title has a
  parenthesised year carries no \<^verbatim>\<open>year\<close>.
\<close>

theorem api_record_without_year:
  "parseMovies_api (''<li data-film-slug='' @ [dq] @ ''dune'' @ [dq] @ '' data-film-name='' @ [dq] @ ''Dune (2021)'' @ [dq] @ ''>'') =
     Some [\<lparr>slug = ''dune'', title = ''Dune (2021)'', year = None, poster = [],
       link = ''https://letterboxd.com/film/dune/''\<rparr>]"
  by code_simp

section \<open>The poster URL\<close>

lemma nogroup_patMatch:
  "(g, rest) \<in> set (patMatch False (nogroup r) t) \<longleftrightarrow> g = [] \<and> (\<exists>w\<in>lang False r. t = w @ rest)"
proof
  assume "(g, rest) \<in> set (patMatch False (nogroup r) t)"
  from patMatch_sound[OF this] obtain u v where t: "t = u @ g @ v @ rest"
    and u: "u \<in> lang False (before (nogroup r))" and g: "g \<in> lang False (group1 (nogroup r))"
    and v: "v \<in> lang False (after (nogroup r))" by blast
  from g v have "g = []" "v = []" unfolding nogroup_def pattern.select_convs lang_Lit_False by simp_all
  with t u show "g = [] \<and> (\<exists>w\<in>lang False r. t = w @ rest)" by (auto simp: nogroup_def)
next
  assume "g = [] \<and> (\<exists>w\<in>lang False r. t = w @ rest)"
  then obtain w where g: "g = []" and w: "w \<in> lang False r" "t = w @ rest" by blast
  have 1: "w \<in> lang False (before (nogroup r))" using w by (simp add: nogroup_def)
  have 2: "[] \<in> lang False (group1 (nogroup r))" "[] \<in> lang False (after (nogroup r))"
    unfolding nogroup_def pattern.select_convs lang_Lit_False by simp_all
  from patMatch_complete[OF 1 2, of rest] w g show "(g, rest) \<in> set (patMatch False (nogroup r) t)"
    by simp
qed

lemma token_iff:
  "(\<exists>rest. (g, rest) \<in> set (patMatch False (nogroup r) t)) \<longleftrightarrow> g = [] \<and> (\<exists>w. tokenHere r t w)"
  unfolding nogroup_patMatch tokenHere_def by blast

lemma patMatch_nil_no_token:
  "patMatch False (nogroup r) t = [] \<longleftrightarrow> (\<forall>w. \<not> tokenHere r t w)"
proof
  assume e: "patMatch False (nogroup r) t = []"
  show "\<forall>w. \<not> tokenHere r t w"
  proof (intro allI notI)
    fix w assume "tokenHere r t w"
    then have "\<exists>rest. ([], rest) \<in> set (patMatch False (nogroup r) t)" using token_iff[of "[]" r t] by blast
    with e show False by simp
  qed
next
  assume n: "\<forall>w. \<not> tokenHere r t w"
  show "patMatch False (nogroup r) t = []"
  proof (cases "patMatch False (nogroup r) t")
    case Nil
    then show ?thesis .
  next
    case (Cons a list)
    obtain g rest where "a = (g, rest)" by (cases a)
    with Cons have "(g, rest) \<in> set (patMatch False (nogroup r) t)" by simp
    then have "\<exists>w. tokenHere r t w" using token_iff[of g r t] by blast
    with n show ?thesis by blast
  qed
qed

lemma replaceFirst_spec: "replacesFirst r rep s (replaceFirst r rep s)"
proof (cases "strMatch False (nogroup r) s")
  case None
  then have n: "\<forall>i\<le>length s. patMatch False (nogroup r) (drop i s) = []"
    unfolding strMatch_def search_None by blast
  have "nowhere (tokenHere r) s"
    unfolding nowhere_def
  proof (intro allI)
    fix i w
    have "patMatch False (nogroup r) (drop i s) = []"
    proof (cases "i \<le> length s")
      case True
      with n show ?thesis by blast
    next
      case False
      then have "drop i s = drop (length s) s" by simp
      with n show ?thesis by (metis order_refl)
    qed
    then show "\<not> tokenHere r (drop i s) w" unfolding patMatch_nil_no_token by blast
  qed
  with None show ?thesis by (simp add: replacesFirst_def replaceFirst_def)
next
  case (Some mt)
  from search_Some[OF Some[unfolded strMatch_def]] obtain i g rest more where
    i: "i \<le> length s" and none: "\<forall>j<i. patMatch False (nogroup r) (drop j s) = []"
    and pm: "patMatch False (nogroup r) (drop i s) = (g, rest) # more"
    and idx: "m_index mt = 0 + i" and e: "m_end mt = 0 + i + (length s - i - length rest)" by blast
  from pm have "(g, rest) \<in> set (patMatch False (nogroup r) (drop i s))" by simp
  then obtain w where w: "w \<in> lang False r" "drop i s = w @ rest" unfolding nogroup_patMatch by blast
  have s: "s = take i s @ w @ rest" using w(2) by (metis append_take_drop_id)
  have "length (drop i s) = length w + length rest" unfolding w(2) by simp
  then have "length s - i - length rest = length w" by simp
  then have e': "m_end mt = i + length w" using e by simp
  have "drop (m_end mt) s = drop (length w) (drop i s)" unfolding e' by (simp add: add.commute)
  also have "\<dots> = rest" unfolding w(2) by simp
  finally have d: "drop (m_end mt) s = rest" .
  have out: "replaceFirst r rep s = take i s @ rep @ rest"
    using Some idx d by (simp add: replaceFirst_def)
  have before: "\<forall>j<length (take i s). \<forall>w'. \<not> tokenHere r (drop j s) w'"
  proof (intro allI impI)
    fix j w' assume "j < length (take i s)"
    then have "j < i" by simp
    with none have "patMatch False (nogroup r) (drop j s) = []" by blast
    then show "\<not> tokenHere r (drop j s) w'" unfolding patMatch_nil_no_token by blast
  qed
  show ?thesis
    unfolding replacesFirst_def
    using s w(1) before out by blast
qed

lemma replaceFirst_unchanged: "nowhere (tokenHere r) s \<Longrightarrow> replaceFirst r rep s = s"
proof -
  assume n: "nowhere (tokenHere r) s"
  have "\<forall>i\<le>length s. patMatch False (nogroup r) (drop i s) = []"
    using n unfolding nowhere_def patMatch_nil_no_token by blast
  then have "strMatch False (nogroup r) s = None" unfolding strMatch_def search_None by blast
  then show ?thesis by (simp add: replaceFirst_def)
qed

lemma plus_digits: "lang False (Plus Digit) = {d. d \<noteq> [] \<and> (\<forall>c\<in>set d. isDigit c)}"
proof -
  have "lang False (Plus Digit) = {u @ v | u v. u \<in> {[c] | c. isDigit c} \<and> v \<in> {w. \<forall>c\<in>set w. isDigit c}}"
    unfolding Plus_def lang.simps star_chars ..
  also have "\<dots> = {d. d \<noteq> [] \<and> (\<forall>c\<in>set d. isDigit c)}"
  proof (intro set_eqI iffI)
    fix g assume "g \<in> {u @ v | u v. u \<in> {[c] | c. isDigit c} \<and> v \<in> {w. \<forall>c\<in>set w. isDigit c}}"
    then show "g \<in> {d. d \<noteq> [] \<and> (\<forall>c\<in>set d. isDigit c)}" by auto
  next
    fix g assume "g \<in> {d. d \<noteq> [] \<and> (\<forall>c\<in>set d. isDigit c)}"
    then obtain c w where "g = [c] @ w" "isDigit c" "\<forall>c\<in>set w. isDigit c" by (cases g) auto
    then show "g \<in> {u @ v | u v. u \<in> {[c] | c. isDigit c} \<and> v \<in> {w. \<forall>c\<in>set w. isDigit c}}" by blast
  qed
  finally show ?thesis .
qed

lemma small_size_tokens:
  "lang False cropToken =
     {''-0-'' @ d1 @ ''-0-'' @ d2 @ ''-crop'' | d1 d2.
        d1 \<noteq> [] \<and> (\<forall>c\<in>set d1. isDigit c) \<and> d2 \<noteq> [] \<and> (\<forall>c\<in>set d2. isDigit c)}"
  "lang False token150 = {''-0-150-0-225-''}"
  "lang False token125 = {''-0-125-0-187-''}"
proof -
  show "lang False token150 = {''-0-150-0-225-''}" unfolding token150_def lang_Lit_False ..
  show "lang False token125 = {''-0-125-0-187-''}" unfolding token125_def lang_Lit_False ..
  show "lang False cropToken =
     {''-0-'' @ d1 @ ''-0-'' @ d2 @ ''-crop'' | d1 d2.
        d1 \<noteq> [] \<and> (\<forall>c\<in>set d1. isDigit c) \<and> d2 \<noteq> [] \<and> (\<forall>c\<in>set d2. isDigit c)}"
    unfolding cropToken_def lang.simps(4) lang_Lit_False plus_digits by blast
qed

text \<open>
  Claim C5, amended. The rewrite of the Workers is three replacements one after the other,
  each of the leftmost token of its own kind in the text it receives and of nothing else:
  \<^verbatim>\<open>-0-<digits>-0-<digits>-crop\<close> by \<^verbatim>\<open>-0-460-0-690-crop\<close>, then \<^verbatim>\<open>-0-150-0-225-\<close> by
  \<^verbatim>\<open>-0-230-0-345-\<close>, then \<^verbatim>\<open>-0-125-0-187-\<close> by \<^verbatim>\<open>-0-230-0-345-\<close>; the rewrite of
  src/api/watchlist.js is the first of them alone. A URL without any token is returned
  unchanged. (The tokens are listed in \<open>small_size_tokens\<close>.)
\<close>

theorem poster_rewrite:
  "(\<exists>u1 u2. replacesFirst cropToken ''-0-460-0-690-crop'' url u1
       \<and> replacesFirst token150 ''-0-230-0-345-'' u1 u2
       \<and> replacesFirst token125 ''-0-230-0-345-'' u2 (rewritePoster url))
   \<and> replacesFirst cropToken ''-0-460-0-690-crop'' url (rewritePoster_api url)
   \<and> (nowhere (tokenHere cropToken) url \<and> nowhere (tokenHere token150) url
        \<and> nowhere (tokenHere token125) url \<longrightarrow> rewritePoster url = url)
   \<and> (nowhere (tokenHere cropToken) url \<longrightarrow> rewritePoster_api url = url)"
proof (intro conjI impI)
  show "\<exists>u1 u2. replacesFirst cropToken ''-0-460-0-690-crop'' url u1
       \<and> replacesFirst token150 ''-0-230-0-345-'' u1 u2
       \<and> replacesFirst token125 ''-0-230-0-345-'' u2 (rewritePoster url)"
    unfolding rewritePoster_def Let_def using replaceFirst_spec by blast
  show "replacesFirst cropToken ''-0-460-0-690-crop'' url (rewritePoster_api url)"
  proof (cases "url = []")
    case True
    have "replaceFirst cropToken ''-0-460-0-690-crop'' [] = []"
      by (simp add: replaceFirst_def strMatch_def patMatch_def nogroup_def cropToken_def canon_def)
    with replaceFirst_spec[of cropToken "''-0-460-0-690-crop''" "[]"] True show ?thesis
      by (simp add: rewritePoster_api_def)
  next
    case False
    with replaceFirst_spec[of cropToken "''-0-460-0-690-crop''" url] show ?thesis
      by (simp add: rewritePoster_api_def)
  qed
next
  assume "nowhere (tokenHere cropToken) url \<and> nowhere (tokenHere token150) url
        \<and> nowhere (tokenHere token125) url"
  then show "rewritePoster url = url"
    by (simp add: rewritePoster_def Let_def replaceFirst_unchanged)
next
  assume "nowhere (tokenHere cropToken) url"
  then show "rewritePoster_api url = url"
    by (simp add: rewritePoster_api_def replaceFirst_unchanged)
qed


lemma token_none: "strMatch False (nogroup r) s = None \<longleftrightarrow> nowhere (tokenHere r) s"
proof
  assume "nowhere (tokenHere r) s"
  then have "\<forall>i\<le>length s. patMatch False (nogroup r) (drop i s) = []"
    unfolding nowhere_def patMatch_nil_no_token by blast
  then show "strMatch False (nogroup r) s = None" unfolding strMatch_def search_None by blast
next
  assume "strMatch False (nogroup r) s = None"
  with replaceFirst_spec[of r "[]" s] show "nowhere (tokenHere r) s"
    unfolding strMatch_def search_None nowhere_def patMatch_nil_no_token
    by (metis drop_all nat_le_linear order_refl)
qed

text \<open>
  Claim C5, witnessed on a URL without a token, which stays as it is, and on two URLs with
  one token.
\<close>

theorem poster_rewrite_witness:
  "rewritePoster ''https://a.ltrbxd.com/p.jpg'' = ''https://a.ltrbxd.com/p.jpg''
   \<and> rewritePoster_api ''https://a.ltrbxd.com/p.jpg'' = ''https://a.ltrbxd.com/p.jpg''
   \<and> rewritePoster ''https://a.ltrbxd.com/p-0-150-0-225-crop.jpg'' =
       ''https://a.ltrbxd.com/p-0-460-0-690-crop.jpg''
   \<and> rewritePoster ''https://a.ltrbxd.com/p-0-125-0-187-c.jpg'' =
       ''https://a.ltrbxd.com/p-0-230-0-345-c.jpg''"
proof -
  have 1: "nowhere (tokenHere cropToken) ''https://a.ltrbxd.com/p.jpg''"
    unfolding token_none[symmetric] by code_simp
  have 2: "nowhere (tokenHere token150) ''https://a.ltrbxd.com/p.jpg''"
    unfolding token_none[symmetric] by code_simp
  have 3: "nowhere (tokenHere token125) ''https://a.ltrbxd.com/p.jpg''"
    unfolding token_none[symmetric] by code_simp
  have 4: "rewritePoster ''https://a.ltrbxd.com/p-0-150-0-225-crop.jpg'' =
       ''https://a.ltrbxd.com/p-0-460-0-690-crop.jpg''" by code_simp
  have 5: "rewritePoster ''https://a.ltrbxd.com/p-0-125-0-187-c.jpg'' =
       ''https://a.ltrbxd.com/p-0-230-0-345-c.jpg''" by code_simp
  from poster_rewrite[of "''https://a.ltrbxd.com/p.jpg''"] 1 2 3 4 5 show ?thesis by blast
qed


text \<open>
  Claim C5 as stated fails on a URL with several tokens: the result is neither the URL with
  its first \<^verbatim>\<open>-0-150-0-225-\<close> replaced and the rest unchanged (the \<^verbatim>\<open>-0-125-0-187-\<close> is
  replaced too), nor the URL with its second \<^verbatim>\<open>-0-150-0-225-\<close> replaced (it is kept). It
  also fails on src/api/watchlist.js, which leaves a \<^verbatim>\<open>-0-150-0-225-\<close> that the Workers
  replace.
\<close>

theorem several_tokens_rewritten:
  "rewritePoster ''https://a.ltrbxd.com/p-0-150-0-225-x-0-125-0-187-y-0-150-0-225-z.jpg'' =
     ''https://a.ltrbxd.com/p-0-230-0-345-x-0-230-0-345-y-0-150-0-225-z.jpg''
   \<and> ''https://a.ltrbxd.com/p-0-150-0-225-x-0-125-0-187-y-0-150-0-225-z.jpg'' =
       ''https://a.ltrbxd.com/p'' @ ''-0-150-0-225-'' @ ''x-0-125-0-187-y-0-150-0-225-z.jpg''
   \<and> rewritePoster ''https://a.ltrbxd.com/p-0-150-0-225-x-0-125-0-187-y-0-150-0-225-z.jpg'' \<noteq>
       ''https://a.ltrbxd.com/p'' @ ''-0-230-0-345-'' @ ''x-0-125-0-187-y-0-150-0-225-z.jpg''
   \<and> ''https://a.ltrbxd.com/p-0-150-0-225-x-0-125-0-187-y-0-150-0-225-z.jpg'' =
       ''https://a.ltrbxd.com/p-0-150-0-225-x-0-125-0-187-y'' @ ''-0-150-0-225-'' @ ''z.jpg''
   \<and> rewritePoster ''https://a.ltrbxd.com/p-0-150-0-225-x-0-125-0-187-y-0-150-0-225-z.jpg'' \<noteq>
       ''https://a.ltrbxd.com/p-0-150-0-225-x-0-125-0-187-y'' @ ''-0-230-0-345-'' @ ''z.jpg''
   \<and> rewritePoster ''https://a.ltrbxd.com/p-0-150-0-225-x.jpg'' =
       ''https://a.ltrbxd.com/p-0-230-0-345-x.jpg''
   \<and> rewritePoster_api ''https://a.ltrbxd.com/p-0-150-0-225-x.jpg'' =
       ''https://a.ltrbxd.com/p-0-150-0-225-x.jpg''"
  by code_simp

section \<open>The collected slugs\<close>

lemma lang_Plus_NotIn: "lang False (Plus (NotIn cs)) = {g. g \<noteq> [] \<and> set g \<inter> set cs = {}}"
proof -
  have 1: "lang False (NotIn cs) = {[c] | c. c \<notin> set cs}" by (simp add: canon_False)
  have "lang False (Plus (NotIn cs)) = {u @ v | u v. u \<in> {[c] | c. c \<notin> set cs} \<and> v \<in> {w. \<forall>c\<in>set w. c \<notin> set cs}}"
    unfolding Plus_def lang.simps(4) lang.simps(6) 1 star_chars ..
  also have "\<dots> = {g. g \<noteq> [] \<and> set g \<inter> set cs = {}}"
  proof (intro set_eqI iffI)
    fix g assume "g \<in> {u @ v | u v. u \<in> {[c] | c. c \<notin> set cs} \<and> v \<in> {w. \<forall>c\<in>set w. c \<notin> set cs}}"
    then show "g \<in> {g. g \<noteq> [] \<and> set g \<inter> set cs = {}}" by auto
  next
    fix g assume "g \<in> {g. g \<noteq> [] \<and> set g \<inter> set cs = {}}"
    then obtain c w where "g = [c] @ w" "c \<notin> set cs" "\<forall>c\<in>set w. c \<notin> set cs" by (cases g) auto
    then show "g \<in> {u @ v | u v. u \<in> {[c] | c. c \<notin> set cs} \<and> v \<in> {w. \<forall>c\<in>set w. c \<notin> set cs}}" by blast
  qed
  finally show ?thesis .
qed

lemma link_sound:
  assumes "(v, r) \<in> set (patMatch False slugPattern3 t)"
  shows "linkHere t v"
proof -
  from patMatch_sound[OF assms] obtain u w where t: "t = u @ v @ w @ r"
    and u: "u \<in> lang False (before slugPattern3)" and v: "v \<in> lang False (group1 slugPattern3)"
    and w: "w \<in> lang False (after slugPattern3)" by blast
  from u have u': "u = ''href='' @ [dq] @ ''/film/''"
    unfolding slugPattern3_def pattern.select_convs lang_Lit_False by simp
  from w have w': "w = ''/'' @ [dq]"
    unfolding slugPattern3_def pattern.select_convs lang_Lit_False by simp
  from v have "v \<noteq> [] \<and> set v \<inter> set [CHR ''/'', dq] = {}"
    unfolding slugPattern3_def pattern.select_convs lang_Plus_NotIn by simp
  then have "v \<noteq> []" "CHR ''/'' \<notin> set v" "dq \<notin> set v" by auto
  with t u' w' show ?thesis unfolding linkHere_def by simp
qed

lemma slug1_lang:
  "lang False (before slugPattern1) = (\<lambda>n. n @ ''='' @ [dq]) ` set [''data-film-slug'']"
  unfolding slugPattern1_def pattern.select_convs lang_Lit_False by simp

lemma slug2_lang:
  "lang False (before slugPattern2) = (\<lambda>n. n @ ''='' @ [dq]) ` set [''data-item-slug'']"
  unfolding slugPattern2_def pattern.select_convs lang_Lit_False by simp

lemma slug_lang:
  "lang False (before slugPattern) = (\<lambda>n. n @ ''='' @ [dq]) ` set [''data-film-slug'', ''data-item-slug'']"
  unfolding slugPattern_def pattern.select_convs lang.simps(4) lang_Alt_Lit lang_Lit_False
  by auto

lemma slug1_iff:
  "(\<exists>r. (v, r) \<in> set (patMatch False slugPattern1 t)) \<longleftrightarrow> attrHere [''data-film-slug''] t v"
  by (rule attr_patMatch[OF slug1_lang]) (simp_all add: slugPattern1_def)

lemma slug2_iff:
  "(\<exists>r. (v, r) \<in> set (patMatch False slugPattern2 t)) \<longleftrightarrow> attrHere [''data-item-slug''] t v"
  by (rule attr_patMatch[OF slug2_lang]) (simp_all add: slugPattern2_def)

lemma slug_iff:
  "(\<exists>r. (v, r) \<in> set (patMatch False slugPattern t)) \<longleftrightarrow>
     attrHere [''data-film-slug'', ''data-item-slug''] t v"
  by (rule attr_patMatch[OF slug_lang]) (simp_all add: slugPattern_def)

lemma exec_found:
  assumes "exec ic p html li = Some mt"
  shows "\<exists>r. (m_group mt, r) \<in> set (patMatch ic p (drop (m_index mt) html))"
proof -
  from assms have s: "search ic p (drop li html) li = Some mt"
    unfolding exec_def by (auto split: if_splits)
  from search_Some[OF s] obtain i g r rest where
    pm: "patMatch ic p (drop i (drop li html)) = (g, r) # rest" and g: "m_group mt = g"
    and idx: "m_index mt = li + i" by blast
  from pm have "(g, r) \<in> set (patMatch ic p (drop (li + i) html))" by (simp add: add.commute)
  then show ?thesis unfolding g idx by blast
qed

lemma scans_found_aux:
  "scans p html li ms \<Longrightarrow> (\<And>t v. (\<exists>r. (v, r) \<in> set (patMatch False p t)) \<Longrightarrow> A t v) \<Longrightarrow>
     \<forall>mt\<in>set ms. A (drop (m_index mt) html) (m_group mt)"
proof (induction rule: scans.induct)
  case (scans_done p html lastIndex)
  show ?case by simp
next
  case (scans_step p html lastIndex mt ms)
  from exec_found[OF scans_step.hyps(1)] scans_step.prems
  have "A (drop (m_index mt) html) (m_group mt)" by blast
  moreover have "\<forall>mt\<in>set ms. A (drop (m_index mt) html) (m_group mt)"
    by (rule scans_step.IH) (rule scans_step.prems)
  ultimately show ?case by simp
qed

lemma scans_found:
  assumes "\<And>t v. (\<exists>r. (v, r) \<in> set (patMatch False p t)) \<Longrightarrow> A t v"
  shows "scans p html li ms \<Longrightarrow> \<forall>mt\<in>set ms. A (drop (m_index mt) html) (m_group mt)"
  using scans_found_aux[of p html li ms A] assms by blast

lemma map_slug_all2:
  "list_all2 (\<lambda>sl mv. \<exists>i. P sl i \<and> mv = movieFrom sl (f i)) seen ms \<Longrightarrow> map slug ms = seen"
  by (induction seen ms rule: list_all2_induct) (auto simp: slug_movieFrom)

lemma map_slug_api: "map slug (map (\<lambda>sl. movieFrom_api sl (f sl)) seen) = seen"
  by (induction seen) (simp_all add: movieFrom_api_def)

text \<open>
  Claim C2, amended. The Workers scan the page three times, for \<^verbatim>\<open>data-film-slug\<close>
  attributes, for \<^verbatim>\<open>data-item-slug\<close> attributes and for links to \<^verbatim>\<open>/film/<slug>/\<close>; the
  collected identifiers are the values that these scans find, without duplicates, and the
  records are built from them in that order. src/api/watchlist.js scans once, for the two
  attributes, and not for links.
\<close>

theorem slugs_collected:
  "(\<exists>ms1 ms2 ms3 seen recs.
       scans slugPattern1 html 0 ms1 \<and> scans slugPattern2 html 0 ms2 \<and> scans slugPattern3 html 0 ms3
     \<and> (\<forall>mt\<in>set ms1. attrHere [''data-film-slug''] (drop (m_index mt) html) (m_group mt))
     \<and> (\<forall>mt\<in>set ms2. attrHere [''data-item-slug''] (drop (m_index mt) html) (m_group mt))
     \<and> (\<forall>mt\<in>set ms3. linkHere (drop (m_index mt) html) (m_group mt))
     \<and> collectSlugs html = Some seen \<and> set seen = m_group ` (set ms1 \<union> set ms2 \<union> set ms3)
     \<and> distinct seen \<and> parseMovies html = Some recs \<and> map slug recs = seen)
   \<and> (\<exists>ms seen recs.
       scans slugPattern html 0 ms
     \<and> (\<forall>mt\<in>set ms. attrHere [''data-film-slug'', ''data-item-slug'']
           (drop (m_index mt) html) (m_group mt))
     \<and> collect slugPattern html 0 [] = Some seen \<and> set seen = m_group ` set ms
     \<and> distinct seen \<and> parseMovies_api html = Some recs \<and> map slug recs = seen)"
proof
  from collectSlugs_scans[of html] obtain ms1 ms2 ms3 where
    s: "scans slugPattern1 html 0 ms1" "scans slugPattern2 html 0 ms2" "scans slugPattern3 html 0 ms3"
    and c: "collectSlugs html = Some (foldl addSlug [] (map m_group (ms1 @ ms2 @ ms3)))" by blast
  let ?seen = "foldl addSlug [] (map m_group (ms1 @ ms2 @ ms3))"
  have f1: "\<forall>mt\<in>set ms1. attrHere [''data-film-slug''] (drop (m_index mt) html) (m_group mt)"
    by (rule scans_found[OF _ s(1)]) (simp add: slug1_iff)
  have f2: "\<forall>mt\<in>set ms2. attrHere [''data-item-slug''] (drop (m_index mt) html) (m_group mt)"
    by (rule scans_found[OF _ s(2)]) (simp add: slug2_iff)
  have f3: "\<forall>mt\<in>set ms3. linkHere (drop (m_index mt) html) (m_group mt)"
    by (rule scans_found[OF _ s(3)]) (auto intro: link_sound)
  have set: "set ?seen = m_group ` (set ms1 \<union> set ms2 \<union> set ms3)"
    by (auto simp: set_foldl_addSlug)
  have d: "distinct ?seen" by (simp add: distinct_foldl_addSlug)
  from worker_records[of html] c obtain recs where
    r: "parseMovies html = Some recs" "map slug recs = ?seen" by (auto dest: map_slug_all2)
  from s f1 f2 f3 c set d r
  show "\<exists>ms1 ms2 ms3 seen recs.
       scans slugPattern1 html 0 ms1 \<and> scans slugPattern2 html 0 ms2 \<and> scans slugPattern3 html 0 ms3
     \<and> (\<forall>mt\<in>set ms1. attrHere [''data-film-slug''] (drop (m_index mt) html) (m_group mt))
     \<and> (\<forall>mt\<in>set ms2. attrHere [''data-item-slug''] (drop (m_index mt) html) (m_group mt))
     \<and> (\<forall>mt\<in>set ms3. linkHere (drop (m_index mt) html) (m_group mt))
     \<and> collectSlugs html = Some seen \<and> set seen = m_group ` (set ms1 \<union> set ms2 \<union> set ms3)
     \<and> distinct seen \<and> parseMovies html = Some recs \<and> map slug recs = seen"
    by blast
next
  from scans_total[OF slugPatterns_advance(4)] obtain ms where s: "scans slugPattern html 0 ms" by blast
  let ?seen = "foldl addSlug [] (map m_group ms)"
  from collect_scans[OF s, of "[]"] have c: "collect slugPattern html 0 [] = Some ?seen" .
  have f: "\<forall>mt\<in>set ms. attrHere [''data-film-slug'', ''data-item-slug'']
           (drop (m_index mt) html) (m_group mt)"
    by (rule scans_found[OF _ s]) (simp add: slug_iff)
  have set: "set ?seen = m_group ` set ms" by (auto simp: set_foldl_addSlug)
  have d: "distinct ?seen" by (simp add: distinct_foldl_addSlug)
  have r: "parseMovies_api html = Some (map (\<lambda>sl. movieFrom_api sl (filmSection html sl)) ?seen)"
    using c by (simp add: parseMovies_api_def)
  from s f c set d r map_slug_api[of "filmSection html" ?seen]
  show "\<exists>ms seen recs.
       scans slugPattern html 0 ms
     \<and> (\<forall>mt\<in>set ms. attrHere [''data-film-slug'', ''data-item-slug'']
           (drop (m_index mt) html) (m_group mt))
     \<and> collect slugPattern html 0 [] = Some seen \<and> set seen = m_group ` set ms
     \<and> distinct seen \<and> parseMovies_api html = Some recs \<and> map slug recs = seen"
    by blast
qed

text \<open>
  Claim C2, witnessed on a page on which the first two scans find the same slug and the
  third another one.
\<close>

theorem slugs_collected_witness:
  "collectSlugs (''<li data-film-slug='' @ [dq] @ ''a'' @ [dq] @ '' data-item-slug='' @ [dq] @ ''a'' @ [dq]
      @ ''><a href='' @ [dq] @ ''/film/b/'' @ [dq] @ ''>'') = Some [''a'', ''b'']
   \<and> (\<exists>recs. parseMovies (''<li data-film-slug='' @ [dq] @ ''a'' @ [dq] @ '' data-item-slug='' @ [dq] @ ''a'' @ [dq]
      @ ''><a href='' @ [dq] @ ''/film/b/'' @ [dq] @ ''>'') = Some recs \<and> map slug recs = [''a'', ''b''])"
proof -
  define H where "H = ''<li data-film-slug='' @ [dq] @ ''a'' @ [dq] @ '' data-item-slug='' @ [dq] @ ''a'' @ [dq]
      @ ''><a href='' @ [dq] @ ''/film/b/'' @ [dq] @ ''>''"
  have c: "collectSlugs H = Some [''a'', ''b'']"
    unfolding H_def by code_simp
  have "\<exists>seen recs. collectSlugs H = Some seen \<and> parseMovies H = Some recs \<and> map slug recs = seen"
    using slugs_collected[of H] by (elim conjE exE) (intro exI conjI, assumption+)
  with c have "\<exists>recs. parseMovies H = Some recs \<and> map slug recs = [''a'', ''b'']" by auto
  with c show ?thesis unfolding H_def by (rule conjI)
qed

text \<open>
  Claim C2 as stated fails on src/api/watchlist.js: on a page with a link to a film and no
  slug attribute, the link pattern matches and the Workers collect the slug, but this
  extractor collects nothing.
\<close>

theorem api_ignores_links:
  "strMatch False slugPattern3 (''<a href='' @ [dq] @ ''/film/heat/'' @ [dq] @ ''>'') =
     Some \<lparr>m_index = 3, m_text = ''href='' @ [dq] @ ''/film/heat/'' @ [dq], m_group = ''heat'',
       m_end = 21\<rparr>
   \<and> collectSlugs (''<a href='' @ [dq] @ ''/film/heat/'' @ [dq] @ ''>'') = Some [''heat'']
   \<and> collect slugPattern (''<a href='' @ [dq] @ ''/film/heat/'' @ [dq] @ ''>'') 0 [] = Some []
   \<and> parseMovies_api (''<a href='' @ [dq] @ ''/film/heat/'' @ [dq] @ ''>'') = Some []"
  by code_simp

section \<open>A page with more films than one call takes\<close>













end
